theory Spec2Isabelle
  imports Main "HOL-Library.Sublist"
begin

section \<open>JavaScript strings\<close>

text \<open>
  A JavaScript string is a sequence of UTF-16 code units. A code unit is modelled as a
  natural number (real strings only hold values below 65536), so \<open>length\<close> is the
  source's \<open>.length\<close>. \<open>js\<close> turns an ASCII literal into such a string.
\<close>

type_synonym jsstring = "nat list"

definition js :: "string \<Rightarrow> jsstring" where
  "js s = map of_char s"

text \<open>The line terminators, which \<open>.\<close> of a regular expression does not match.\<close>

definition isLineTerminator :: "nat \<Rightarrow> bool" where
  "isLineTerminator c = (c = 0x0A \<or> c = 0x0D \<or> c = 0x2028 \<or> c = 0x2029)"

text \<open>
  White space and line terminators: what \<open>String.prototype.trim\<close> strips and what
  \<open>\s\<close> matches.
\<close>

definition isWhiteSpace :: "nat \<Rightarrow> bool" where
  "isWhiteSpace c =
     (c = 0x09 \<or> c = 0x0A \<or> c = 0x0B \<or> c = 0x0C \<or> c = 0x0D \<or> c = 0x20 \<or> c = 0xA0 \<or>
      c = 0x1680 \<or> (0x2000 \<le> c \<and> c \<le> 0x200A) \<or> c = 0x2028 \<or> c = 0x2029 \<or>
      c = 0x202F \<or> c = 0x205F \<or> c = 0x3000 \<or> c = 0xFEFF)"

definition isDigit :: "nat \<Rightarrow> bool" where
  "isDigit c = (0x30 \<le> c \<and> c \<le> 0x39)"

definition trim :: "jsstring \<Rightarrow> jsstring" where
  "trim s = rev (dropWhile isWhiteSpace (rev (dropWhile isWhiteSpace s)))"

definition startsWith :: "jsstring \<Rightarrow> jsstring \<Rightarrow> bool" where
  "startsWith s p = (take (length p) s = p)"

definition endsWith :: "jsstring \<Rightarrow> jsstring \<Rightarrow> bool" where
  "endsWith s p = (length p \<le> length s \<and> drop (length s - length p) s = p)"

fun str_includes :: "jsstring \<Rightarrow> jsstring \<Rightarrow> bool" where
  "str_includes [] p = (p = [])"
| "str_includes (c # s) p = (startsWith (c # s) p \<or> str_includes s p)"

definition stripPrefix :: "jsstring \<Rightarrow> jsstring \<Rightarrow> jsstring option" where
  "stripPrefix p s = (if startsWith s p then Some (drop (length p) s) else None)"

text \<open>\<open>Number.prototype.toString\<close> on a non-negative integer: its decimal digits.\<close>

fun toString :: "nat \<Rightarrow> jsstring" where
  "toString n = (if n < 10 then [0x30 + n] else toString (n div 10) @ [0x30 + n mod 10])"

declare toString.simps [simp del]

subsection \<open>encodeURIComponent\<close>

text \<open>
  The built-in leaves the unreserved characters alone and writes every other code point
  as the percent-escaped bytes of its UTF-8 encoding. A surrogate code unit that is not
  part of a pair raises URIError: the result is \<open>None\<close>.
\<close>

definition isUnreserved :: "nat \<Rightarrow> bool" where
  "isUnreserved c =
     ((0x41 \<le> c \<and> c \<le> 0x5A) \<or> (0x61 \<le> c \<and> c \<le> 0x7A) \<or> (0x30 \<le> c \<and> c \<le> 0x39) \<or>
      c = 0x2D \<or> c = 0x5F \<or> c = 0x2E \<or> c = 0x21 \<or> c = 0x7E \<or> c = 0x2A \<or>
      c = 0x27 \<or> c = 0x28 \<or> c = 0x29)"

definition hexDigit :: "nat \<Rightarrow> nat" where
  "hexDigit n = (if n < 10 then 0x30 + n else 0x37 + n)"

definition percentByte :: "nat \<Rightarrow> jsstring" where
  "percentByte b = [0x25, hexDigit (b div 16), hexDigit (b mod 16)]"

definition utf8 :: "nat \<Rightarrow> nat list" where
  "utf8 cp =
     (if cp < 0x80 then [cp]
      else if cp < 0x800 then [0xC0 + cp div 0x40, 0x80 + cp mod 0x40]
      else if cp < 0x10000 then
        [0xE0 + cp div 0x1000, 0x80 + (cp div 0x40) mod 0x40, 0x80 + cp mod 0x40]
      else
        [0xF0 + cp div 0x40000, 0x80 + (cp div 0x1000) mod 0x40,
         0x80 + (cp div 0x40) mod 0x40, 0x80 + cp mod 0x40])"

definition percentEncode :: "nat \<Rightarrow> jsstring" where
  "percentEncode cp = concat (map percentByte (utf8 cp))"

definition isHighSurrogate :: "nat \<Rightarrow> bool" where
  "isHighSurrogate c = (0xD800 \<le> c \<and> c \<le> 0xDBFF)"

definition isLowSurrogate :: "nat \<Rightarrow> bool" where
  "isLowSurrogate c = (0xDC00 \<le> c \<and> c \<le> 0xDFFF)"

fun encodeURIComponent :: "jsstring \<Rightarrow> jsstring option" where
  "encodeURIComponent [] = Some []"
| "encodeURIComponent [c] =
     (if isUnreserved c then Some [c]
      else if isHighSurrogate c \<or> isLowSurrogate c then None
      else Some (percentEncode c))"
| "encodeURIComponent (c # d # s) =
     (if isUnreserved c then map_option ((#) c) (encodeURIComponent (d # s))
      else if isLowSurrogate c then None
      else if isHighSurrogate c then
        (if isLowSurrogate d then
           map_option ((@) (percentEncode ((c - 0xD800) * 0x400 + (d - 0xDC00) + 0x10000)))
             (encodeURIComponent s)
         else None)
      else map_option ((@) (percentEncode c)) (encodeURIComponent (d # s)))"

section \<open>Data model\<close>

text \<open>
  The interfaces of \<open>types.ts\<close>. An optional field is an option; record fields carry a
  prefix where the source's name is taken (\<open>id\<close>, \<open>text\<close>, \<open>data\<close>).
\<close>

datatype image_status = Success | Error

record GeneratedImage =
  img_id :: jsstring
  img_data :: jsstring
  img_mimeType :: jsstring
  img_status :: image_status

record UploadedImage =
  up_id :: jsstring
  up_data :: jsstring
  up_mimeType :: jsstring
  up_name :: "jsstring option"

datatype role = User | Model

record Message =
  msg_id :: jsstring
  msg_role :: role
  msg_text :: "jsstring option"
  msg_textVariations :: "jsstring list option"
  msg_images :: "GeneratedImage list option"
  msg_uploadedImages :: "UploadedImage list option"
  msg_selectedImageId :: "jsstring option"
  msg_timestamp :: nat
  msg_isError :: "bool option"

record ImageInput =
  inp_mimeType :: jsstring
  inp_base64Data :: jsstring

text \<open>What the source throws, and what it passes to \<open>logError\<close>.\<close>

datatype failure =
    ImageProcessingError jsstring
  | ValidationError jsstring jsstring
  | SafetyFilterError jsstring
  | URIError
  | Rejected jsstring
  | NetworkError jsstring
  | TypeError

datatype diagnostic =
    InvalidImageDataFormat jsstring
  | EmptyBase64Data jsstring
  | ImageTooLarge jsstring
  | SelectedImageTooLarge jsstring

text \<open>
  Code of the repository that is imported by the service and is not part of the sources
  at hand is taken as a parameter: the size limit \<open>VALIDATION_LIMITS.MAX_IMAGE_SIZE_MB\<close>
  (in megabytes), the validators \<open>validateApiKey\<close> and \<open>validatePrompt\<close> (\<open>Some e\<close>
  when they throw \<open>e\<close>), and \<open>generateUUID\<close> (its n-th result).
\<close>

record deps =
  MAX_IMAGE_SIZE_MB :: nat
  validateApiKey :: "jsstring \<Rightarrow> failure option"
  validatePrompt :: "jsstring \<Rightarrow> failure option"
  generateUUID :: "nat \<Rightarrow> jsstring"

section \<open>The data-URI extractor\<close>

text \<open>
  The match of \<open>/^data:([^;]+);base64,(.+)$/\<close>: after \<open>data:\<close> the first group is
  everything up to the first semicolon and must not be empty, \<open>;base64,\<close> must follow at
  once, and the second group is the non-empty rest of the input, free of line
  terminators. The result is the two groups.
\<close>

definition matchDataUri :: "jsstring \<Rightarrow> (jsstring \<times> jsstring) option" where
  "matchDataUri dataUri =
    (case stripPrefix (js ''data:'') dataUri of
       None \<Rightarrow> None
     | Some rest \<Rightarrow>
         let g1 = takeWhile (\<lambda>c. c \<noteq> 0x3B) rest
         in if g1 = [] then None
            else (case stripPrefix (js '';base64,'') (dropWhile (\<lambda>c. c \<noteq> 0x3B) rest) of
                    None \<Rightarrow> None
                  | Some g2 \<Rightarrow>
                      if g2 = [] \<or> (\<exists>c \<in> set g2. isLineTerminator c) then None
                      else Some (g1, g2)))"

text \<open>
  \<open>extractBase64Data\<close> of the Gemini service: the result, and the diagnostics handed to
  \<open>logError\<close> on the way.
\<close>

definition extractBase64Data ::
  "jsstring \<Rightarrow> jsstring \<Rightarrow> (jsstring \<times> jsstring) option \<times> diagnostic list" where
  "extractBase64Data dataUri imageId =
    (case matchDataUri dataUri of
       None \<Rightarrow> (None, [InvalidImageDataFormat imageId])
     | Some (mimeTypeFromData, base64Data) \<Rightarrow>
         let finalMimeType = (if mimeTypeFromData = [] then js ''image/png'' else mimeTypeFromData)
         in if base64Data = [] then (None, [EmptyBase64Data imageId])
            else (Some (finalMimeType, base64Data), []))"

text \<open>The extractor of the OpenAI service is the same function without the logging.\<close>

definition extractBase64DataOpenAI :: "jsstring \<Rightarrow> (jsstring \<times> jsstring) option" where
  "extractBase64DataOpenAI dataUri =
    (case matchDataUri dataUri of
       None \<Rightarrow> None
     | Some (mimeTypeFromData, base64Data) \<Rightarrow>
         let finalMimeType = (if mimeTypeFromData = [] then js ''image/png'' else mimeTypeFromData)
         in if base64Data = [] then None
            else Some (finalMimeType, base64Data))"

definition dataUriOf :: "jsstring \<Rightarrow> jsstring \<Rightarrow> jsstring" where
  "dataUriOf mime payload = js ''data:'' @ mime @ js '';base64,'' @ payload"

text \<open>
  \<open>(length * 3 / 4) / (1024 * 1024) > MAX_IMAGE_SIZE_MB\<close>, with the divisions moved to
  the other side (both are exact in the source's arithmetic).
\<close>

definition exceedsMaxSize :: "deps \<Rightarrow> jsstring \<Rightarrow> bool" where
  "exceedsMaxSize d b64 = (MAX_IMAGE_SIZE_MB d * (4 * (1024 * 1024)) < length b64 * 3)"

section \<open>The Gemini proxy endpoint\<close>

text \<open>\<open>replace(/\/+$/, '')\<close>: the trailing slashes are removed.\<close>

definition stripTrailingSlashes :: "jsstring \<Rightarrow> jsstring" where
  "stripTrailingSlashes s = rev (dropWhile (\<lambda>c. c = 0x2F) (rev s))"

text \<open>
  \<open>/\/models\/[^/]+$/.test\<close>: the text after the last slash is not empty and the text up
  to and including that slash ends in \<open>/models/\<close>.
\<close>

definition endsWithModelName :: "jsstring \<Rightarrow> bool" where
  "endsWithModelName s =
     (let lastSegment = rev (takeWhile (\<lambda>c. c \<noteq> 0x2F) (rev s));
          upToSlash = rev (dropWhile (\<lambda>c. c \<noteq> 0x2F) (rev s))
      in lastSegment \<noteq> [] \<and> endsWith upToSlash (js ''/models/''))"

definition buildGeminiEndpoint :: "jsstring \<Rightarrow> jsstring \<Rightarrow> jsstring" where
  "buildGeminiEndpoint baseUrl modelName =
     (let normalized = trim baseUrl in
      if normalized = [] then []
      else
        let normalized = stripTrailingSlashes normalized in
        if str_includes normalized (js '':generateContent'') then normalized
        else if endsWithModelName normalized then normalized @ js '':generateContent''
        else if endsWith normalized (js ''/models'') then
          normalized @ js ''/'' @ modelName @ js '':generateContent''
        else if endsWith normalized (js ''/v1beta'') \<or> endsWith normalized (js ''/v1'') then
          normalized @ js ''/models/'' @ modelName @ js '':generateContent''
        else normalized @ js ''/v1beta/models/'' @ modelName @ js '':generateContent'')"

definition appendKeyParam :: "jsstring \<Rightarrow> jsstring \<Rightarrow> failure + jsstring" where
  "appendKeyParam url apiKey =
     (if apiKey = [] \<or> str_includes url (js ''key='') then Inr url
      else
        let joiner = (if str_includes url (js ''?'') then js ''&'' else js ''?'') in
        case encodeURIComponent apiKey of
          None \<Rightarrow> Inl URIError
        | Some encoded \<Rightarrow> Inr (url @ joiner @ js ''key='' @ encoded))"

text \<open>The parts of the outbound user message, and a content entry (role and parts).\<close>

datatype part = TextPart jsstring | InlineData jsstring jsstring

type_synonym content = "role \<times> part list"

record ImageConfig =
  cfg_aspectRatio :: "jsstring option"
  cfg_imageSize :: "jsstring option"

record request =
  req_url :: jsstring
  req_method :: jsstring
  req_headers :: "(jsstring \<times> jsstring) list"
  req_contents :: "content list"
  req_generationConfig :: "ImageConfig option"

text \<open>
  \<open>fetchGeminiGenerateContent\<close> up to its call of \<open>fetch\<close>: the request that goes out,
  or what is thrown before. The body is kept as its two fields; \<open>generationConfig\<close> is
  there when the image configuration has a key.
\<close>

definition fetchGeminiGenerateContent ::
  "jsstring \<Rightarrow> jsstring \<Rightarrow> jsstring \<Rightarrow> content list \<Rightarrow> ImageConfig option \<Rightarrow> failure + request" where
  "fetchGeminiGenerateContent baseUrl apiKey modelName contents imageConfig =
     (case appendKeyParam (buildGeminiEndpoint baseUrl modelName) apiKey of
        Inl e \<Rightarrow> Inl e
      | Inr endpoint \<Rightarrow>
          if endpoint = [] then Inl (ImageProcessingError (js ''Gemini Base URL is missing.''))
          else Inr \<lparr> req_url = endpoint,
                     req_method = js ''POST'',
                     req_headers =
                       [(js ''Content-Type'', js ''application/json''),
                        (js ''Authorization'', js ''Bearer '' @ apiKey),
                        (js ''x-goog-api-key'', apiKey)],
                     req_contents = contents,
                     req_generationConfig =
                       (case imageConfig of
                          None \<Rightarrow> None
                        | Some c \<Rightarrow>
                            if cfg_aspectRatio c = None \<and> cfg_imageSize c = None then None
                            else Some c) \<rparr>)"

section \<open>The request normalizer\<close>

subsection \<open>Selected images of the history\<close>

text \<open>
  The body of the loop of \<open>collectSelectedImages\<close>: the image input a message
  contributes, if any, and what is logged.
\<close>

definition selectedImageInput :: "deps \<Rightarrow> Message \<Rightarrow> ImageInput option \<times> diagnostic list" where
  "selectedImageInput d msg =
     (if msg_role msg \<noteq> Model \<or> msg_selectedImageId msg = None \<or>
         msg_selectedImageId msg = Some [] then (None, [])
      else case msg_images msg of
        None \<Rightarrow> (None, [])
      | Some images \<Rightarrow>
          (case find (\<lambda>img. Some (img_id img) = msg_selectedImageId msg) images of
             None \<Rightarrow> (None, [])
           | Some selectedImg \<Rightarrow>
               if img_status selectedImg \<noteq> Success then (None, [])
               else
                 (case extractBase64Data (img_data selectedImg) (img_id selectedImg) of
                    (None, logged) \<Rightarrow> (None, logged)
                  | (Some (mime, b64), logged) \<Rightarrow>
                      if exceedsMaxSize d b64 then
                        (None, logged @ [SelectedImageTooLarge (img_id selectedImg)])
                      else (Some \<lparr> inp_mimeType = mime, inp_base64Data = b64 \<rparr>, logged))))"

fun collectSelectedImages :: "deps \<Rightarrow> Message list \<Rightarrow> ImageInput list \<times> diagnostic list" where
  "collectSelectedImages d [] = ([], [])"
| "collectSelectedImages d (msg # messages) =
     (let (r, logged) = selectedImageInput d msg;
          (selectedImages, loggedRest) = collectSelectedImages d messages
      in ((case r of None \<Rightarrow> selectedImages | Some i \<Rightarrow> i # selectedImages),
          logged @ loggedRest))"

text \<open>\<open>buildHistory\<close> of the current Gemini service: prior turns are not carried forward.\<close>

definition buildHistory :: "Message list \<Rightarrow> content list" where
  "buildHistory messages = []"

subsection \<open>Uploaded images\<close>

definition uploadedImageInput :: "deps \<Rightarrow> UploadedImage \<Rightarrow> ImageInput option \<times> diagnostic list" where
  "uploadedImageInput d img =
     (case extractBase64Data (up_data img) (up_id img) of
        (None, logged) \<Rightarrow> (None, logged)
      | (Some (mime, b64), logged) \<Rightarrow>
          if exceedsMaxSize d b64 then (None, logged @ [ImageTooLarge (up_id img)])
          else (Some \<lparr> inp_mimeType = mime, inp_base64Data = b64 \<rparr>, logged))"

fun uploadedImageInputs :: "deps \<Rightarrow> UploadedImage list \<Rightarrow> ImageInput list \<times> diagnostic list" where
  "uploadedImageInputs d [] = ([], [])"
| "uploadedImageInputs d (img # imgs) =
     (let (r, logged) = uploadedImageInput d img;
          (inputs, loggedRest) = uploadedImageInputs d imgs
      in ((case r of None \<Rightarrow> inputs | Some i \<Rightarrow> i # inputs), logged @ loggedRest))"

subsection \<open>The image-order legend\<close>

text \<open>
  The pattern \<open>imageRefPattern\<close>, matched without regard to case anywhere in the prompt.
  Its four alternatives, each tried at the start of a suffix of the prompt:
  U+56FE and one or more numerals; \<open>image\<close>, white space, a digit from 1 to 9;
  U+7B2C, one or more numerals, U+5F20; U+7B2C, a number without leading zero, U+5F20.
  A numeral is one of the ten Chinese number characters or a decimal digit.
\<close>

definition isNumeral :: "nat \<Rightarrow> bool" where
  "isNumeral c =
     (c = 0x4E00 \<or> c = 0x4E8C \<or> c = 0x4E09 \<or> c = 0x56DB \<or> c = 0x4E94 \<or> c = 0x516D \<or>
      c = 0x4E03 \<or> c = 0x516B \<or> c = 0x4E5D \<or> c = 0x5341 \<or> isDigit c)"

definition isDigit19 :: "nat \<Rightarrow> bool" where
  "isDigit19 c = (0x31 \<le> c \<and> c \<le> 0x39)"

text \<open>ASCII letters compare without case; no other code unit folds onto one of them.\<close>

definition eqIgnoreCase :: "nat \<Rightarrow> nat \<Rightarrow> bool" where
  "eqIgnoreCase c l = (c = l \<or> (0x61 \<le> l \<and> l \<le> 0x7A \<and> c + 0x20 = l))"

definition startsWithIgnoreCase :: "jsstring \<Rightarrow> jsstring \<Rightarrow> bool" where
  "startsWithIgnoreCase s p =
     (length p \<le> length s \<and> list_all2 eqIgnoreCase (take (length p) s) p)"

definition headIs :: "(nat \<Rightarrow> bool) \<Rightarrow> jsstring \<Rightarrow> bool" where
  "headIs P s = (case s of [] \<Rightarrow> False | c # _ \<Rightarrow> P c)"

definition imageRefAt :: "jsstring \<Rightarrow> bool" where
  "imageRefAt s =
     ((headIs (\<lambda>c. c = 0x56FE) s \<and> headIs isNumeral (drop 1 s))
      \<or> (startsWithIgnoreCase s (js ''image'') \<and>
          headIs isDigit19 (dropWhile isWhiteSpace (drop 5 s)))
      \<or> (headIs (\<lambda>c. c = 0x7B2C) s \<and> headIs isNumeral (drop 1 s) \<and>
          headIs (\<lambda>c. c = 0x5F20) (dropWhile isNumeral (drop 1 s)))
      \<or> (headIs (\<lambda>c. c = 0x7B2C) s \<and> headIs isDigit19 (drop 1 s) \<and>
          headIs (\<lambda>c. c = 0x5F20) (dropWhile isDigit (drop 2 s))))"

fun hasImageReference :: "jsstring \<Rightarrow> bool" where
  "hasImageReference [] = False"
| "hasImageReference (c # s) = (imageRefAt (c # s) \<or> hasImageReference s)"

text \<open>
  The legend. Its literals are, in code units, the characters of the source of the
  current revision: every one of them is the question mark U+003F. The ten strings of
  the table of numerals are question marks, a label is a question mark, the numeral, two
  question marks, the number and seven question marks, the labels are joined by a
  question mark, and the legend is seven question marks, the labels, a question mark and
  two line feeds.
\<close>

definition chineseNumerals :: "jsstring list" where
  "chineseNumerals =
     [[0x3F], [0x3F], [0x3F], [0x3F], [0x3F], [0x3F], [0x3F], [0x3F], [0x3F], [0x3F]]"

definition imageLabel :: "nat \<Rightarrow> jsstring" where
  "imageLabel i =
     (let num = i + 1;
          chineseNum = (if num - 1 < length chineseNumerals then chineseNumerals ! (num - 1)
                        else toString num)
      in [0x3F] @ chineseNum @ [0x3F, 0x3F] @ toString num @
         [0x3F, 0x3F, 0x3F, 0x3F, 0x3F, 0x3F, 0x3F])"

fun join :: "jsstring \<Rightarrow> jsstring list \<Rightarrow> jsstring" where
  "join sep [] = []"
| "join sep [x] = x"
| "join sep (x # y # xs) = x @ sep @ join sep (y # xs)"

definition imageLegend :: "nat \<Rightarrow> jsstring" where
  "imageLegend imageCount =
     [0x3F, 0x3F, 0x3F, 0x3F, 0x3F, 0x3F, 0x3F] @
     join [0x3F] (map imageLabel [0..<imageCount]) @ [0x3F] @ [0x0A, 0x0A]"

definition enhancePrompt :: "jsstring \<Rightarrow> nat \<Rightarrow> jsstring" where
  "enhancePrompt prompt imageCount =
     (if 1 < imageCount then
        (if hasImageReference prompt then imageLegend imageCount @ prompt else prompt)
      else prompt)"

subsection \<open>The preflight of the Gemini dispatcher\<close>

text \<open>
  \<open>generateImageBatchStream\<close> up to the point where the task queue is built: the parts
  of the user message, or what is thrown, and the diagnostics logged. The proxy variant of
  the parts differs in the spelling of its field names only and is not kept apart.
\<close>

definition validateInput :: "deps \<Rightarrow> jsstring \<Rightarrow> jsstring \<Rightarrow> failure option" where
  "validateInput d apiKey prompt =
     (case validateApiKey d apiKey of
        Some e \<Rightarrow> Some e
      | None \<Rightarrow> if prompt \<noteq> [] then validatePrompt d prompt else None)"

definition inlinePart :: "ImageInput \<Rightarrow> part" where
  "inlinePart img = InlineData (inp_mimeType img) (inp_base64Data img)"

definition geminiUserParts ::
  "deps \<Rightarrow> jsstring \<Rightarrow> jsstring \<Rightarrow> Message list \<Rightarrow> UploadedImage list option \<Rightarrow>
     (failure + part list) \<times> diagnostic list" where
  "geminiUserParts d apiKey prompt history uploadedImages =
     (case validateInput d apiKey prompt of
        Some e \<Rightarrow> (Inl e, [])
      | None \<Rightarrow>
          let (selectedImages, logged1) = collectSelectedImages d history;
              (uploadedInputs, logged2) =
                 (case uploadedImages of
                    None \<Rightarrow> ([], [])
                  | Some ups \<Rightarrow> if ups = [] then ([], []) else uploadedImageInputs d ups);
              supplied = (case uploadedImages of None \<Rightarrow> False | Some ups \<Rightarrow> ups \<noteq> [])
          in if supplied \<and> uploadedInputs = [] then
               (Inl (ImageProcessingError
                  (js ''No valid images could be processed. Please check image format and size.'')),
                logged1 @ logged2)
             else
               let imageInputs = selectedImages @ uploadedInputs;
                   textParts = (if prompt \<noteq> []
                                then [TextPart (enhancePrompt prompt (length imageInputs))]
                                else []);
                   userParts = textParts @ map inlinePart imageInputs
               in if userParts = [] then
                    (Inl (ValidationError (js ''At least one image or text prompt is required.'')
                            (js ''Input'')),
                     logged1 @ logged2)
                  else (Inr userParts, logged1 @ logged2))"

definition geminiContents :: "Message list \<Rightarrow> part list \<Rightarrow> content list" where
  "geminiContents history userParts = buildHistory history @ [(User, userParts)]"

subsection \<open>The earlier revision of the Gemini service\<close>

text \<open>
  Its \<open>buildHistory\<close> carries the selected successful image of each model message
  forward, and nothing else.
\<close>

definition historyEntry :: "Message \<Rightarrow> (content option) \<times> diagnostic list" where
  "historyEntry msg =
     (let (parts, logged) =
        (if msg_role msg = Model then
           (case msg_images msg of
              None \<Rightarrow> ([], [])
            | Some images \<Rightarrow>
                if images = [] then ([], [])
                else
                  (case find (\<lambda>img. Some (img_id img) = msg_selectedImageId msg) images of
                     None \<Rightarrow> ([], [])
                   | Some selectedImg \<Rightarrow>
                       if img_status selectedImg \<noteq> Success then ([], [])
                       else
                         (case extractBase64Data (img_data selectedImg) (img_id selectedImg) of
                            (None, logged) \<Rightarrow> ([], logged)
                          | (Some (mime, b64), logged) \<Rightarrow> ([InlineData mime b64], logged))))
         else ([], []))
      in ((if parts \<noteq> [] then Some (msg_role msg, parts) else None), logged))"

fun buildHistoryEarlier :: "Message list \<Rightarrow> content list" where
  "buildHistoryEarlier [] = []"
| "buildHistoryEarlier (msg # messages) =
     (case fst (historyEntry msg) of
        None \<Rightarrow> buildHistoryEarlier messages
      | Some entry \<Rightarrow> entry # buildHistoryEarlier messages)"

definition geminiContentsEarlier :: "Message list \<Rightarrow> part list \<Rightarrow> content list" where
  "geminiContentsEarlier history userParts = buildHistoryEarlier history @ [(User, userParts)]"

subsection \<open>The preflight of the OpenAI-compatible dispatcher\<close>

datatype oa_part = OaText jsstring | OaImageUrl jsstring

type_synonym oa_message = "role \<times> oa_part list"

definition selectedImageUrlOpenAI :: "deps \<Rightarrow> Message \<Rightarrow> oa_part option \<times> diagnostic list" where
  "selectedImageUrlOpenAI d msg =
     (if msg_role msg \<noteq> Model \<or> msg_selectedImageId msg = None \<or>
         msg_selectedImageId msg = Some [] then (None, [])
      else case msg_images msg of
        None \<Rightarrow> (None, [])
      | Some images \<Rightarrow>
          (case find (\<lambda>img. Some (img_id img) = msg_selectedImageId msg) images of
             None \<Rightarrow> (None, [])
           | Some selectedImg \<Rightarrow>
               if img_status selectedImg \<noteq> Success then (None, [])
               else
                 (case extractBase64DataOpenAI (img_data selectedImg) of
                    None \<Rightarrow> (None, [])
                  | Some (mime, b64) \<Rightarrow>
                      if exceedsMaxSize d b64 then
                        (None, [SelectedImageTooLarge (img_id selectedImg)])
                      else (Some (OaImageUrl (img_data selectedImg)), []))))"

fun collectSelectedImagesOpenAI :: "deps \<Rightarrow> Message list \<Rightarrow> oa_part list \<times> diagnostic list" where
  "collectSelectedImagesOpenAI d [] = ([], [])"
| "collectSelectedImagesOpenAI d (msg # messages) =
     (let (r, logged) = selectedImageUrlOpenAI d msg;
          (selectedImages, loggedRest) = collectSelectedImagesOpenAI d messages
      in ((case r of None \<Rightarrow> selectedImages | Some i \<Rightarrow> i # selectedImages),
          logged @ loggedRest))"

definition uploadedImageUrlOpenAI :: "deps \<Rightarrow> UploadedImage \<Rightarrow> oa_part option \<times> diagnostic list" where
  "uploadedImageUrlOpenAI d img =
     (case extractBase64DataOpenAI (up_data img) of
        None \<Rightarrow> (None, [])
      | Some (mime, b64) \<Rightarrow>
          if exceedsMaxSize d b64 then (None, [ImageTooLarge (up_id img)])
          else (Some (OaImageUrl (up_data img)), []))"

fun uploadedImageUrlsOpenAI :: "deps \<Rightarrow> UploadedImage list \<Rightarrow> oa_part list \<times> diagnostic list" where
  "uploadedImageUrlsOpenAI d [] = ([], [])"
| "uploadedImageUrlsOpenAI d (img # imgs) =
     (let (r, logged) = uploadedImageUrlOpenAI d img;
          (urls, loggedRest) = uploadedImageUrlsOpenAI d imgs
      in ((case r of None \<Rightarrow> urls | Some i \<Rightarrow> i # urls), logged @ loggedRest))"

definition buildHistoryOpenAI :: "Message list \<Rightarrow> oa_message list" where
  "buildHistoryOpenAI messages = []"

definition openaiUserContent ::
  "deps \<Rightarrow> jsstring \<Rightarrow> jsstring \<Rightarrow> Message list \<Rightarrow> UploadedImage list option \<Rightarrow>
     (failure + oa_part list) \<times> diagnostic list" where
  "openaiUserContent d apiKey prompt history uploadedImages =
     (case validateInput d apiKey prompt of
        Some e \<Rightarrow> (Inl e, [])
      | None \<Rightarrow>
          let textParts = (if prompt \<noteq> [] then [OaText prompt] else []);
              (selectedImages, logged1) = collectSelectedImagesOpenAI d history;
              (uploadedUrls, logged2) =
                 (case uploadedImages of
                    None \<Rightarrow> ([], [])
                  | Some ups \<Rightarrow> if ups = [] then ([], []) else uploadedImageUrlsOpenAI d ups);
              userContent = textParts @ selectedImages @ uploadedUrls
          in if userContent = [] then
               (Inl (ImageProcessingError (js ''At least one image or text prompt is required.'')),
                logged1 @ logged2)
             else (Inr userContent, logged1 @ logged2))"

definition openaiMessages :: "Message list \<Rightarrow> oa_part list \<Rightarrow> oa_message list" where
  "openaiMessages history userContent = buildHistoryOpenAI history @ [(User, userContent)]"

subsection \<open>The outbound request contents\<close>

text \<open>
  What the dispatchers hand to the provider on every attempt: the history entries
  followed by the one user message, or the failure thrown before any worker starts.
\<close>

definition geminiRequestContents ::
  "deps \<Rightarrow> jsstring \<Rightarrow> jsstring \<Rightarrow> Message list \<Rightarrow> UploadedImage list option \<Rightarrow>
     failure + content list" where
  "geminiRequestContents d apiKey prompt history uploadedImages =
     (case fst (geminiUserParts d apiKey prompt history uploadedImages) of
        Inl e \<Rightarrow> Inl e
      | Inr userParts \<Rightarrow> Inr (geminiContents history userParts))"

definition openaiRequestMessages ::
  "deps \<Rightarrow> jsstring \<Rightarrow> jsstring \<Rightarrow> Message list \<Rightarrow> UploadedImage list option \<Rightarrow>
     failure + oa_message list" where
  "openaiRequestMessages d apiKey prompt history uploadedImages =
     (case fst (openaiUserContent d apiKey prompt history uploadedImages) of
        Inl e \<Rightarrow> Inl e
      | Inr userContent \<Rightarrow> Inr (openaiMessages history userContent))"

text \<open>A message with its text fields blanked: two histories that differ in text only agree on it.\<close>

definition eraseText :: "Message \<Rightarrow> Message" where
  "eraseText msg = msg \<lparr> msg_text := None, msg_textVariations := None \<rparr>"

definition userMessages :: "(role \<times> 'a) list \<Rightarrow> nat" where
  "userMessages contents = length (filter (\<lambda>c. fst c = User) contents)"

subsection \<open>Sample inputs\<close>

text \<open>Concrete values on which the theorems below are exercised.\<close>

definition sampleDeps :: deps where
  "sampleDeps = \<lparr> MAX_IMAGE_SIZE_MB = 20, validateApiKey = (\<lambda>k. None),
                   validatePrompt = (\<lambda>p. None), generateUUID = toString \<rparr>"

definition sampleUpload :: "jsstring \<Rightarrow> jsstring \<Rightarrow> UploadedImage" where
  "sampleUpload i uri = \<lparr> up_id = i, up_data = uri, up_mimeType = js ''image/png'', up_name = None \<rparr>"

definition sampleModelMessage :: "jsstring option \<Rightarrow> Message" where
  "sampleModelMessage t =
     \<lparr> msg_id = js ''m1'', msg_role = Model, msg_text = t, msg_textVariations = None,
       msg_images = Some [\<lparr> img_id = js ''i1'',
                            img_data = js ''data:image/png;base64,AAAA'',
                            img_mimeType = js ''image/png'', img_status = Success \<rparr>],
       msg_uploadedImages = None, msg_selectedImageId = Some (js ''i1''),
       msg_timestamp = 1, msg_isError = None \<rparr>"

section \<open>Provider responses\<close>

text \<open>
  What the \<open>try\<close> block of a worker does with the outcome of one provider call: the
  callbacks it invokes, in order, and the error it throws, if any (\<open>None\<close> when an image
  was found and \<open>success\<close> is set).
\<close>

datatype emission = EmitImage jsstring jsstring | EmitText jsstring

type_synonym handled = "emission list \<times> failure option"

definition isImageEmission :: "emission \<Rightarrow> bool" where
  "isImageEmission e = (case e of EmitImage _ _ \<Rightarrow> True | EmitText _ \<Rightarrow> False)"

subsection \<open>Gemini\<close>

text \<open>
  The response as the worker reads it. A string field that is absent is the empty string
  (both are falsy); \<open>cand_parts\<close> is \<open>None\<close> when \<open>content\<close> or \<open>content.parts\<close> is
  absent. The reply is untyped JSON: an element of \<open>parts\<close> may be \<open>null\<close>, which is
  \<open>None\<close> here, and reading a field of it throws a \<open>TypeError\<close>. The provider call
  either throws (a network failure, an HTTP error of the proxy, an aborted request) or
  returns the candidates.
\<close>

record inline_data =
  inl_data :: jsstring
  inl_mimeType :: jsstring
  inl_mime_type :: jsstring

record response_part =
  part_inlineData :: "inline_data option"
  part_inline_data :: "inline_data option"
  part_text :: jsstring

record candidate =
  cand_finishReason :: jsstring
  cand_finish_reason :: jsstring
  cand_parts :: "response_part option list option"

datatype gemini_reply = GeminiThrows failure | GeminiReturns "candidate list"

definition orElse :: "jsstring \<Rightarrow> jsstring \<Rightarrow> jsstring" where
  "orElse a b = (if a \<noteq> [] then a else b)"

definition partEmission :: "response_part \<Rightarrow> emission option" where
  "partEmission p =
     (let inlineData = (case part_inlineData p of Some i \<Rightarrow> Some i | None \<Rightarrow> part_inline_data p);
          textEmission = (if part_text p \<noteq> [] then Some (EmitText (part_text p)) else None)
      in case inlineData of
           None \<Rightarrow> textEmission
         | Some i \<Rightarrow>
             if inl_data i \<noteq> [] then
               (let mimeType = orElse (inl_mimeType i) (orElse (inl_mime_type i) (js ''image/png''))
                in Some (EmitImage (dataUriOf mimeType (inl_data i)) mimeType))
             else textEmission)"


text \<open>
  The loop over the parts: the emissions so far, \<open>foundImage\<close>, and what the loop
  throws, if it does. A \<open>null\<close> part ends the loop with a \<open>TypeError\<close>, after the
  callbacks for the parts before it.
\<close>

fun scanParts ::
  "response_part option list \<Rightarrow> emission list \<times> bool \<Rightarrow> emission list \<times> bool \<times> failure option" where
  "scanParts [] (emitted, foundImage) = (emitted, foundImage, None)"
| "scanParts (None # ps) (emitted, foundImage) = (emitted, foundImage, Some TypeError)"
| "scanParts (Some p # ps) (emitted, foundImage) =
     (case partEmission p of
        None \<Rightarrow> scanParts ps (emitted, foundImage)
      | Some e \<Rightarrow> scanParts ps (emitted @ [e], foundImage \<or> isImageEmission e))"

text \<open>
  After the loop: what it threw, or \<open>success = true\<close> when an image was found, or
  \<open>No image data in response\<close>.
\<close>

definition afterParts :: "emission list \<times> bool \<times> failure option \<Rightarrow> handled" where
  "afterParts r =
     (case r of
        (emitted, foundImage, Some err) \<Rightarrow> (emitted, Some err)
      | (emitted, foundImage, None) \<Rightarrow>
          if foundImage then (emitted, None)
          else (emitted, Some (ImageProcessingError (js ''No image data in response''))))"

definition handleGemini :: "gemini_reply \<Rightarrow> handled" where
  "handleGemini reply =
     (case reply of
        GeminiThrows e \<Rightarrow> ([], Some e)
      | GeminiReturns candidates \<Rightarrow>
          (case candidates of
             [] \<Rightarrow> ([], Some (ImageProcessingError (js ''No candidate returned from API'')))
           | candidate # _ \<Rightarrow>
               let finishReason = orElse (cand_finishReason candidate) (cand_finish_reason candidate)
               in if finishReason = js ''SAFETY'' then
                    ([], Some (SafetyFilterError (js ''Content blocked by safety filters'')))
                  else
                    (case cand_parts candidate of
                       None \<Rightarrow> ([], Some (ImageProcessingError (js ''No content parts in response'')))
                     | Some parts \<Rightarrow> afterParts (scanParts parts ([], False)))))"

subsection \<open>OpenAI-compatible\<close>

text \<open>
  The message content is a string or an array of parts; \<open>None\<close> stands for a missing or
  null content. The \<open>image_url\<close> of a part is a string or an object with a \<open>url\<close>;
  the \<open>url\<close> is a string (empty when absent or falsy) or a truthy value that is not a
  string, on which \<open>split\<close> is not a function.
\<close>

datatype image_url = UrlString jsstring | UrlObject jsstring | UrlObjectOther

record oa_response_part =
  rp_image_url :: "image_url option"
  rp_text :: jsstring

datatype oa_content = ContentString jsstring | ContentArray "oa_response_part list"

record oa_choice =
  ch_finish_reason :: jsstring
  ch_content :: "oa_content option"

datatype openai_reply = OpenAIThrows failure | OpenAIReturns "oa_choice list"

definition isBase64Char :: "nat \<Rightarrow> bool" where
  "isBase64Char c =
     ((0x41 \<le> c \<and> c \<le> 0x5A) \<or> (0x61 \<le> c \<and> c \<le> 0x7A) \<or> (0x30 \<le> c \<and> c \<le> 0x39) \<or>
      c = 0x2B \<or> c = 0x2F \<or> c = 0x3D)"

text \<open>
  \<open>/data:image\/[^;]+;base64,[A-Za-z0-9+/=]+/\<close> at the start of a string: the matched
  text, if any.
\<close>

definition dataUriAt :: "jsstring \<Rightarrow> jsstring option" where
  "dataUriAt s =
     (case stripPrefix (js ''data:image/'') s of
        None \<Rightarrow> None
      | Some rest \<Rightarrow>
          let subtype = takeWhile (\<lambda>c. c \<noteq> 0x3B) rest
          in if subtype = [] then None
             else (case stripPrefix (js '';base64,'') (dropWhile (\<lambda>c. c \<noteq> 0x3B) rest) of
                     None \<Rightarrow> None
                   | Some payload \<Rightarrow>
                       let b64 = takeWhile isBase64Char payload
                       in if b64 = [] then None
                          else Some (js ''data:image/'' @ subtype @ js '';base64,'' @ b64)))"

text \<open>The first match of that pattern anywhere in the string.\<close>

fun findDataUri :: "jsstring \<Rightarrow> jsstring option" where
  "findDataUri [] = None"
| "findDataUri (c # s) =
     (case dataUriAt (c # s) of Some m \<Rightarrow> Some m | None \<Rightarrow> findDataUri s)"

text \<open>\<open>url.split(';')[0].split(':')[1]\<close>, \<open>None\<close> when there is no colon.\<close>

definition mimeTypeOfUrl :: "jsstring \<Rightarrow> jsstring option" where
  "mimeTypeOfUrl url =
     (let head = takeWhile (\<lambda>c. c \<noteq> 0x3B) url
      in case dropWhile (\<lambda>c. c \<noteq> 0x3A) head of
           [] \<Rightarrow> None
         | _ # afterColon \<Rightarrow> Some (takeWhile (\<lambda>c. c \<noteq> 0x3A) afterColon))"

definition oaPartEmission :: "oa_response_part \<Rightarrow> failure + emission option" where
  "oaPartEmission p =
     (let textEmission = (if rp_text p \<noteq> [] then Some (EmitText (rp_text p)) else None)
      in case rp_image_url p of
           None \<Rightarrow> Inr textEmission
         | Some (UrlString u) \<Rightarrow>
             if u = [] then Inr textEmission
             else Inr (Some (EmitImage u
                    (case mimeTypeOfUrl u of None \<Rightarrow> js ''image/png''
                                           | Some m \<Rightarrow> orElse m (js ''image/png''))))
         | Some (UrlObject u) \<Rightarrow>
             if u = [] then Inr None
             else Inr (Some (EmitImage u
                    (case mimeTypeOfUrl u of None \<Rightarrow> js ''image/png''
                                           | Some m \<Rightarrow> orElse m (js ''image/png''))))
         | Some UrlObjectOther \<Rightarrow> Inl TypeError)"

fun scanOaParts ::
  "oa_response_part list \<Rightarrow> emission list \<times> bool \<Rightarrow> emission list \<times> bool \<times> failure option" where
  "scanOaParts [] (emitted, foundImage) = (emitted, foundImage, None)"
| "scanOaParts (p # ps) (emitted, foundImage) =
     (case oaPartEmission p of
        Inl err \<Rightarrow> (emitted, foundImage, Some err)
      | Inr None \<Rightarrow> scanOaParts ps (emitted, foundImage)
      | Inr (Some e) \<Rightarrow> scanOaParts ps (emitted @ [e], foundImage \<or> isImageEmission e))"

fun handleContent :: "oa_content option \<Rightarrow> handled" where
  "handleContent None = ([], Some (ImageProcessingError (js ''No content in response'')))"
| "handleContent (Some (ContentString content)) =
     (if content = [] then ([], Some (ImageProcessingError (js ''No content in response'')))
      else (case findDataUri content of
              Some uri \<Rightarrow>
                afterParts
                  ([EmitImage uri (case mimeTypeOfUrl uri of None \<Rightarrow> [] | Some m \<Rightarrow> m)], True,
                   None)
            | None \<Rightarrow> afterParts ([EmitText content], False, None)))"
| "handleContent (Some (ContentArray parts)) = afterParts (scanOaParts parts ([], False))"

definition handleOpenAI :: "openai_reply \<Rightarrow> handled" where
  "handleOpenAI reply =
     (case reply of
        OpenAIThrows e \<Rightarrow> ([], Some e)
      | OpenAIReturns choices \<Rightarrow>
          (case choices of
             [] \<Rightarrow> ([], Some (ImageProcessingError (js ''No choice returned from API'')))
           | choice # _ \<Rightarrow>
               if ch_finish_reason choice = js ''content_filter'' then
                 ([], Some (SafetyFilterError (js ''Content blocked by safety filters'')))
               else handleContent (ch_content choice)))"

section \<open>The worker pool\<close>

definition MAX_CONCURRENT_REQUESTS :: nat where
  "MAX_CONCURRENT_REQUESTS = 10"

definition MAX_RETRIES :: nat where
  "MAX_RETRIES = 3"

text \<open>
  What a batch does, in order: the three callbacks, the provider calls it starts, the
  backoff delays it waits for and its calls of \<open>logError\<close>. The first argument is the
  index of the task slot the acting worker holds; the callbacks themselves do not
  receive it. \<open>OnProgress i c t\<close> is \<open>onProgress(c, t)\<close>, \<open>Call i a\<close> the provider call of
  attempt \<open>a\<close> (counted from 0), \<open>Delay i ms\<close> the wait of \<open>ms\<close> milliseconds and
  \<open>LogError i w a e\<close> the log entry of worker \<open>w\<close> after the failed attempt number \<open>a\<close>.
  \<open>SignalAborted\<close> marks the moment the cancellation signal fires.
\<close>

datatype action =
    OnImage nat GeneratedImage
  | OnText nat jsstring
  | OnProgress nat nat nat
  | Call nat nat
  | Delay nat nat
  | LogError nat nat nat failure
  | SignalAborted

text \<open>
  A worker is an \<open>async\<close> function: it runs until it reaches an \<open>await\<close> and is resumed
  when the awaited promise settles. Its control points are the head of the outer loop,
  the head of the retry loop (with \<open>index\<close>, \<open>attempt\<close>, \<open>success\<close>), the two \<open>await\<close>s
  (the provider call; the delay, with the attempt count already incremented and the wait
  time), the code after the retry loop, and the end.
\<close>

datatype wstate =
    Outer
  | Inner nat nat bool
  | AwaitCall nat nat
  | AwaitDelay nat nat nat
  | AfterLoop nat bool
  | Finished

text \<open>The variables shared by the workers of one batch, and the trace of what was done.\<close>

record pool =
  taskQueue :: "nat list"
  completedCount :: nat
  aborted :: bool
  workers :: "wstate list"
  trace :: "action list"

text \<open>
  The surroundings of a batch: \<open>settings.batchSize\<close>; what the \<open>try\<close> block makes of a
  provider reply; the error the \<open>catch\<close> block hands to \<open>logError\<close>; the caller's
  callbacks, of which the pool only sees whether one of them aborts the signal (decided
  on the callbacks invoked so far, the current one last); and \<open>generateUUID\<close>. The
  callbacks and \<open>logError\<close> are taken to return normally.
\<close>

record 'r env =
  env_batchSize :: nat
  env_handle :: "'r \<Rightarrow> handled"
  env_logged :: "failure \<Rightarrow> failure"
  env_callbackAborts :: "action list \<Rightarrow> bool"
  env_uuid :: "nat \<Rightarrow> jsstring"

definition isCallback :: "action \<Rightarrow> bool" where
  "isCallback a =
     (case a of OnImage _ _ \<Rightarrow> True | OnText _ _ \<Rightarrow> True | OnProgress _ _ _ \<Rightarrow> True
              | _ \<Rightarrow> False)"

definition isOnImage :: "action \<Rightarrow> bool" where
  "isOnImage a = (case a of OnImage _ _ \<Rightarrow> True | _ \<Rightarrow> False)"

text \<open>Invoking a callback: it is recorded, and it may abort the signal.\<close>

definition emit :: "'r env \<Rightarrow> action \<Rightarrow> pool \<Rightarrow> pool" where
  "emit e a s =
     (let tr = trace s @ [a]
      in if \<not> aborted s \<and> env_callbackAborts e (filter isCallback tr)
         then s \<lparr> trace := tr @ [SignalAborted], aborted := True \<rparr>
         else s \<lparr> trace := tr \<rparr>)"

definition emitImage ::
  "'r env \<Rightarrow> nat \<Rightarrow> jsstring \<Rightarrow> jsstring \<Rightarrow> image_status \<Rightarrow> pool \<Rightarrow> pool" where
  "emitImage e index imgData mime st s =
     emit e (OnImage index
               \<lparr> img_id = env_uuid e (length (filter isOnImage (trace s))),
                 img_data = imgData, img_mimeType = mime, img_status = st \<rparr>) s"

fun emits :: "'r env \<Rightarrow> nat \<Rightarrow> emission list \<Rightarrow> pool \<Rightarrow> pool" where
  "emits e index [] s = s"
| "emits e index (EmitImage imgData mime # es) s =
     emits e index es (emitImage e index imgData mime Success s)"
| "emits e index (EmitText t # es) s = emits e index es (emit e (OnText index t) s)"

text \<open>Internal actions leave a trace and nothing else.\<close>

definition note_action :: "action \<Rightarrow> pool \<Rightarrow> pool" where
  "note_action a s = s \<lparr> trace := trace s @ [a] \<rparr>"

definition setWorker :: "nat \<Rightarrow> wstate \<Rightarrow> pool \<Rightarrow> pool" where
  "setWorker w x s = s \<lparr> workers := (workers s)[w := x] \<rparr>"

text \<open>
  The code after the retry loop: the error image unless the slot succeeded or the signal
  is aborted, then the progress update unless the signal is aborted.
\<close>

definition reportOutcome :: "'r env \<Rightarrow> nat \<Rightarrow> bool \<Rightarrow> pool \<Rightarrow> pool" where
  "reportOutcome e index success s =
     (let s1 = (if \<not> success \<and> \<not> aborted s then emitImage e index [] [] Error s else s)
      in if \<not> aborted s1 then
           emit e (OnProgress index (completedCount s1 + 1) (env_batchSize e))
             (s1 \<lparr> completedCount := completedCount s1 + 1 \<rparr>)
         else s1)"

text \<open>
  One stretch of the worker function between two control points. At \<open>Outer\<close>: the loop
  condition, the cancellation check, \<open>taskQueue.shift()\<close>. At \<open>Inner\<close>: the condition of
  the retry loop, the cancellation check, the start of the provider call. At
  \<open>AfterLoop\<close>: the report of the outcome, and back to the outer loop.
\<close>

definition micro :: "'r env \<Rightarrow> nat \<Rightarrow> pool \<Rightarrow> pool" where
  "micro e w s =
     (case workers s ! w of
        Outer \<Rightarrow>
          if taskQueue s = [] then setWorker w Finished s
          else if aborted s then setWorker w Finished s
          else setWorker w (Inner (hd (taskQueue s)) 0 False)
                 (s \<lparr> taskQueue := tl (taskQueue s) \<rparr>)
      | Inner index attempt success \<Rightarrow>
          if attempt \<le> MAX_RETRIES \<and> \<not> success then
            (if aborted s then setWorker w Finished s
             else setWorker w (AwaitCall index attempt) (note_action (Call index attempt) s))
          else setWorker w (AfterLoop index success) s
      | AfterLoop index success \<Rightarrow> setWorker w Outer (reportOutcome e index success s)
      | _ \<Rightarrow> s)"

definition running :: "wstate \<Rightarrow> bool" where
  "running x = (case x of Outer \<Rightarrow> True | Inner _ _ _ \<Rightarrow> True | AfterLoop _ _ \<Rightarrow> True
                        | _ \<Rightarrow> False)"

definition rank :: "wstate \<Rightarrow> nat" where
  "rank x = (case x of Outer \<Rightarrow> 1 | Inner _ _ _ \<Rightarrow> 3 | AfterLoop _ _ \<Rightarrow> 2 | _ \<Rightarrow> 0)"

text \<open>A worker runs until it awaits or returns.\<close>

function runWorker :: "'r env \<Rightarrow> nat \<Rightarrow> pool \<Rightarrow> pool" where
  "runWorker e w s =
     (if w < length (workers s) \<and> running (workers s ! w) then runWorker e w (micro e w s)
      else s)"
  by pat_completeness auto
termination
proof (relation "measure (\<lambda>(e, w, s). 3 * length (taskQueue s) + rank (workers s ! w))")
  show "wf (measure (\<lambda>(e, w, s). 3 * length (taskQueue s) + rank (workers s ! w)))"
    by simp
next
  fix e :: "'r env" and w and s :: pool
  assume a: "w < length (workers s) \<and> running (workers s ! w)"
  show "((e, w, micro e w s), (e, w, s))
          \<in> measure (\<lambda>(e, w, s). 3 * length (taskQueue s) + rank (workers s ! w))"
  proof (cases "workers s ! w")
    case Outer
    with a show ?thesis
      by (cases "taskQueue s")
         (simp_all add: micro_def setWorker_def rank_def)
  next
    case (Inner index attempt success)
    with a show ?thesis
      by (simp add: micro_def setWorker_def rank_def note_action_def)
  next
    case (AfterLoop index success)
    with a show ?thesis
      by (simp add: micro_def setWorker_def rank_def reportOutcome_def emit_def emitImage_def
          Let_def)
  qed (use a in \<open>simp_all add: running_def\<close>)
qed

declare runWorker.simps [simp del]

text \<open>
  The \<open>try\<close> and \<open>catch\<close> blocks, entered when the provider call of a worker settles:
  the callbacks for the content of the reply, then either \<open>success = true\<close> or the
  \<open>catch\<close> block (count the attempt, log unless aborted, wait unless the attempts are
  used up or the signal is aborted).
\<close>

definition catchBlock :: "'r env \<Rightarrow> nat \<Rightarrow> nat \<Rightarrow> nat \<Rightarrow> failure \<Rightarrow> pool \<Rightarrow> pool" where
  "catchBlock e w index attempt error s =
     (let attempt' = attempt + 1;
          s1 = (if \<not> aborted s then
                  note_action (LogError index (w + 1) attempt' (env_logged e error)) s
                else s)
      in if attempt' \<le> MAX_RETRIES \<and> \<not> aborted s1 then
           (let waitTime = 1000 * 2 ^ (attempt' - 1)
            in setWorker w (AwaitDelay index attempt' waitTime)
                 (note_action (Delay index waitTime) s1))
         else setWorker w (Inner index attempt' False) s1)"

definition onReply :: "'r env \<Rightarrow> nat \<Rightarrow> nat \<Rightarrow> nat \<Rightarrow> 'r \<Rightarrow> pool \<Rightarrow> pool" where
  "onReply e w index attempt r s =
     (let s1 = emits e index (fst (env_handle e r)) s
      in case snd (env_handle e r) of
           None \<Rightarrow> setWorker w (Inner index attempt True) s1
         | Some error \<Rightarrow> catchBlock e w index attempt error s1)"

text \<open>
  What happens to a running batch: the provider call of a worker settles, the delay of a
  worker elapses, or the caller aborts the signal. An event for a worker that is not
  waiting for it cannot occur.
\<close>

datatype 'r event = Reply nat 'r | Timer nat | Abort

definition step :: "'r env \<Rightarrow> 'r event \<Rightarrow> pool \<Rightarrow> pool option" where
  "step e ev s =
     (case ev of
        Abort \<Rightarrow>
          Some (if aborted s then s
                else s \<lparr> aborted := True, trace := trace s @ [SignalAborted] \<rparr>)
      | Reply w r \<Rightarrow>
          if w < length (workers s) then
            (case workers s ! w of
               AwaitCall index attempt \<Rightarrow> Some (runWorker e w (onReply e w index attempt r s))
             | _ \<Rightarrow> None)
          else None
      | Timer w \<Rightarrow>
          if w < length (workers s) then
            (case workers s ! w of
               AwaitDelay index attempt waitTime \<Rightarrow>
                 Some (runWorker e w (setWorker w (Inner index attempt False) s))
             | _ \<Rightarrow> None)
          else None)"

fun run :: "'r env \<Rightarrow> 'r event list \<Rightarrow> pool \<Rightarrow> pool option" where
  "run e [] s = Some s"
| "run e (ev # evs) s = (case step e ev s of None \<Rightarrow> None | Some s' \<Rightarrow> run e evs s')"

text \<open>
  The start of the batch: the queue of slots, the counter, and \<open>min(10, batchSize)\<close>
  workers, each run up to its first \<open>await\<close> in the order of their creation. The second
  argument says whether the signal is already aborted.
\<close>

definition spawn :: "'r env \<Rightarrow> bool \<Rightarrow> pool" where
  "spawn e alreadyAborted =
     (let numWorkers = min MAX_CONCURRENT_REQUESTS (env_batchSize e)
      in fold (runWorker e) [0..<numWorkers]
           \<lparr> taskQueue = [0..<env_batchSize e], completedCount = 0, aborted = alreadyAborted,
             workers = replicate numWorkers Outer,
             trace = (if alreadyAborted then [SignalAborted] else []) \<rparr>)"

text \<open>\<open>Promise.all(workers)\<close> resolves when every worker has returned.\<close>

definition finished :: "pool \<Rightarrow> bool" where
  "finished s = list_all (\<lambda>x. x = Finished) (workers s)"

definition geminiEnv :: "deps \<Rightarrow> nat \<Rightarrow> (action list \<Rightarrow> bool) \<Rightarrow> gemini_reply env" where
  "geminiEnv d n cb =
     \<lparr> env_batchSize = n, env_handle = handleGemini, env_logged = (\<lambda>e. e),
       env_callbackAborts = cb, env_uuid = generateUUID d \<rparr>"

text \<open>
  The OpenAI-compatible dispatcher logs an error whose message mentions \<open>fetch\<close> or
  \<open>network\<close> as a network error.
\<close>

definition failureMessage :: "failure \<Rightarrow> jsstring" where
  "failureMessage f =
     (case f of ImageProcessingError m \<Rightarrow> m | ValidationError m _ \<Rightarrow> m
              | SafetyFilterError m \<Rightarrow> m | URIError \<Rightarrow> [] | Rejected m \<Rightarrow> m
              | TypeError \<Rightarrow> []
              | NetworkError m \<Rightarrow> m)"

definition classifyOpenAI :: "failure \<Rightarrow> failure" where
  "classifyOpenAI f =
     (if str_includes (failureMessage f) (js ''fetch'') \<or>
         str_includes (failureMessage f) (js ''network'')
      then NetworkError (failureMessage f) else f)"

definition openaiEnv :: "deps \<Rightarrow> nat \<Rightarrow> (action list \<Rightarrow> bool) \<Rightarrow> openai_reply env" where
  "openaiEnv d n cb =
     \<lparr> env_batchSize = n, env_handle = handleOpenAI, env_logged = classifyOpenAI,
       env_callbackAborts = cb, env_uuid = generateUUID d \<rparr>"

text \<open>
  The two dispatchers: the preflight, then the pool. The result is the failure the
  operation rejects with before any worker exists, or the batch with its workers started.
\<close>

definition generateImageBatchStream ::
  "deps \<Rightarrow> jsstring \<Rightarrow> jsstring \<Rightarrow> Message list \<Rightarrow> nat \<Rightarrow> UploadedImage list option \<Rightarrow>
     (action list \<Rightarrow> bool) \<Rightarrow> bool \<Rightarrow> failure + pool" where
  "generateImageBatchStream d apiKey prompt history batchSize uploadedImages cb alreadyAborted =
     (case fst (geminiUserParts d apiKey prompt history uploadedImages) of
        Inl err \<Rightarrow> Inl err
      | Inr userParts \<Rightarrow> Inr (spawn (geminiEnv d batchSize cb) alreadyAborted))"

definition generateImageBatchStreamOpenAI ::
  "deps \<Rightarrow> jsstring \<Rightarrow> jsstring \<Rightarrow> Message list \<Rightarrow> nat \<Rightarrow> UploadedImage list option \<Rightarrow>
     (action list \<Rightarrow> bool) \<Rightarrow> bool \<Rightarrow> failure + pool" where
  "generateImageBatchStreamOpenAI d apiKey prompt history batchSize uploadedImages cb alreadyAborted =
     (case fst (openaiUserContent d apiKey prompt history uploadedImages) of
        Inl err \<Rightarrow> Inl err
      | Inr userContent \<Rightarrow> Inr (spawn (openaiEnv d batchSize cb) alreadyAborted))"

section \<open>Reading a trace\<close>

text \<open>The slot an action belongs to.\<close>

fun slotOf :: "action \<Rightarrow> nat option" where
  "slotOf (OnImage i _) = Some i"
| "slotOf (OnText i _) = Some i"
| "slotOf (OnProgress i _ _) = Some i"
| "slotOf (Call i _) = Some i"
| "slotOf (Delay i _) = Some i"
| "slotOf (LogError i _ _ _) = Some i"
| "slotOf SignalAborted = None"

definition acts :: "nat \<Rightarrow> action list \<Rightarrow> action list" where
  "acts i tr = filter (\<lambda>a. slotOf a = Some i) tr"

text \<open>The provider calls and the delays of slot \<open>i\<close>, in order.\<close>

fun isAttemptStepOf :: "nat \<Rightarrow> action \<Rightarrow> bool" where
  "isAttemptStepOf i (Call j _) = (j = i)"
| "isAttemptStepOf i (Delay j _) = (j = i)"
| "isAttemptStepOf i _ = False"

definition attempts :: "nat \<Rightarrow> action list \<Rightarrow> action list" where
  "attempts i tr = filter (isAttemptStepOf i) tr"

text \<open>
  The retry policy as a plan: attempt 0 starts at once, retry \<open>n\<close> (attempt \<open>n\<close>) starts
  after a wait of \<open>1000 * 2 ^ (n - 1)\<close> milliseconds. \<open>attemptPlan i a\<close> is the plan for the
  first \<open>a\<close> attempts of slot \<open>i\<close>.
\<close>

definition planStep :: "nat \<Rightarrow> nat \<Rightarrow> action list" where
  "planStep i n = (if n = 0 then [] else [Delay i (1000 * 2 ^ (n - 1))]) @ [Call i n]"

definition attemptPlan :: "nat \<Rightarrow> nat \<Rightarrow> action list" where
  "attemptPlan i a = concat (map (planStep i) [0..<a])"

fun isSuccessImageOf :: "nat \<Rightarrow> action \<Rightarrow> bool" where
  "isSuccessImageOf i (OnImage j img) = (j = i \<and> img_status img = Success)"
| "isSuccessImageOf i _ = False"

fun isErrorImageOf :: "nat \<Rightarrow> action \<Rightarrow> bool" where
  "isErrorImageOf i (OnImage j img) = (j = i \<and> img_status img = Error)"
| "isErrorImageOf i _ = False"

fun isTextOf :: "nat \<Rightarrow> action \<Rightarrow> bool" where
  "isTextOf i (OnText j _) = (j = i)"
| "isTextOf i _ = False"

fun isProgressOf :: "nat \<Rightarrow> action \<Rightarrow> bool" where
  "isProgressOf i (OnProgress j _ _) = (j = i)"
| "isProgressOf i _ = False"

definition successImages :: "nat \<Rightarrow> action list \<Rightarrow> action list" where
  "successImages i tr = filter (isSuccessImageOf i) tr"

definition errorImages :: "nat \<Rightarrow> action list \<Rightarrow> action list" where
  "errorImages i tr = filter (isErrorImageOf i) tr"

definition textCalls :: "nat \<Rightarrow> action list \<Rightarrow> action list" where
  "textCalls i tr = filter (isTextOf i) tr"

definition progressCalls :: "nat \<Rightarrow> action list \<Rightarrow> action list" where
  "progressCalls i tr = filter (isProgressOf i) tr"

text \<open>The arguments of the calls of \<open>onProgress\<close>, in order.\<close>

fun progressValue :: "action \<Rightarrow> (nat \<times> nat) list" where
  "progressValue (OnProgress _ c t) = [(c, t)]"
| "progressValue _ = []"

definition progressValues :: "action list \<Rightarrow> (nat \<times> nat) list" where
  "progressValues tr = concat (map progressValue tr)"

text \<open>The fourth attempt of slot \<open>i\<close> has failed (and the signal was not aborted then).\<close>

fun isLastFailureOf :: "nat \<Rightarrow> action \<Rightarrow> bool" where
  "isLastFailureOf i (LogError j _ a _) = (j = i \<and> a = MAX_RETRIES + 1)"
| "isLastFailureOf i _ = False"

definition exhausted :: "nat \<Rightarrow> action list \<Rightarrow> bool" where
  "exhausted i tr = (filter (isLastFailureOf i) tr \<noteq> [])"

text \<open>What was done from the moment the signal fired.\<close>

definition afterAbort :: "action list \<Rightarrow> action list" where
  "afterAbort tr = dropWhile (\<lambda>a. a \<noteq> SignalAborted) tr"

text \<open>
  The callbacks for the content of a reply: an image with status success, or a text.
\<close>

fun isContentCallback :: "action \<Rightarrow> bool" where
  "isContentCallback (OnImage _ img) = (img_status img = Success)"
| "isContentCallback (OnText _ _) = True"
| "isContentCallback SignalAborted = True"
| "isContentCallback _ = False"

text \<open>
  What both dispatchers' \<open>try\<close> blocks have in common: an attempt succeeds only when a
  callback for an image was invoked. (An attempt can fail after such a callback.)
\<close>

definition handlerOk :: "('r \<Rightarrow> handled) \<Rightarrow> bool" where
  "handlerOk h = (\<forall>r. snd (h r) = None \<longrightarrow> (\<exists>em \<in> set (fst (h r)). isImageEmission em))"

text \<open>The slot a worker holds at a control point.\<close>

fun held :: "wstate \<Rightarrow> nat option" where
  "held Outer = None"
| "held (Inner i _ _) = Some i"
| "held (AwaitCall i _) = Some i"
| "held (AwaitDelay i _ _) = Some i"
| "held (AfterLoop i _) = Some i"
| "held Finished = None"

section \<open>The invariant of a batch\<close>

definition fullPlan :: "nat \<Rightarrow> action list" where
  "fullPlan i = attemptPlan i (MAX_RETRIES + 1)"

definition quiet :: "nat \<Rightarrow> action list \<Rightarrow> bool" where
  "quiet i tr = (errorImages i tr = [] \<and> progressCalls i tr = [])"

text \<open>
  What the trace says about the slot of a worker at each control point; \<open>ab\<close> is the
  state of the signal.
\<close>

fun wsOk :: "bool \<Rightarrow> action list \<Rightarrow> wstate \<Rightarrow> bool" where
  "wsOk ab tr Outer = True"
| "wsOk ab tr Finished = True"
| "wsOk ab tr (AwaitCall i a) =
     (a \<le> MAX_RETRIES \<and> attempts i tr = attemptPlan i (Suc a) \<and> quiet i tr \<and> \<not> exhausted i tr)"
| "wsOk ab tr (AwaitDelay i a ms) =
     (1 \<le> a \<and> a \<le> MAX_RETRIES \<and> ms = 1000 * 2 ^ (a - 1) \<and>
      attempts i tr = attemptPlan i a @ [Delay i ms] \<and> quiet i tr \<and> \<not> exhausted i tr)"
| "wsOk ab tr (Inner i a success) =
     (if success then
        a \<le> MAX_RETRIES \<and> attempts i tr = attemptPlan i (Suc a) \<and> successImages i tr \<noteq> [] \<and>
        errorImages i tr = [] \<and> progressCalls i tr = [] \<and> \<not> exhausted i tr
      else
        a \<le> MAX_RETRIES + 1 \<and> prefix (attempts i tr) (fullPlan i) \<and> quiet i tr \<and>
        (exhausted i tr \<longrightarrow> a = MAX_RETRIES + 1) \<and>
        (\<not> ab \<longrightarrow> attempts i tr =
           (if a = 0 then []
            else if a \<le> MAX_RETRIES then attemptPlan i a @ [Delay i (1000 * 2 ^ (a - 1))]
            else attemptPlan i a)))"
| "wsOk ab tr (AfterLoop i success) =
     (prefix (attempts i tr) (fullPlan i) \<and> errorImages i tr = [] \<and> progressCalls i tr = [] \<and>
      (if success then successImages i tr \<noteq> [] \<and> \<not> exhausted i tr
       else (\<not> ab \<longrightarrow> attempts i tr = fullPlan i)))"

text \<open>What the trace says about a slot that was claimed and is held no more.\<close>

definition resolvedOk :: "bool \<Rightarrow> action list \<Rightarrow> nat \<Rightarrow> bool" where
  "resolvedOk ab tr i =
     (prefix (attempts i tr) (fullPlan i) \<and>
      length (errorImages i tr) \<le> 1 \<and> length (progressCalls i tr) \<le> 1 \<and>
      (errorImages i tr \<noteq> [] \<longrightarrow> attempts i tr = fullPlan i) \<and>
      (\<not> ab \<longrightarrow> length (progressCalls i tr) = 1 \<and>
               ((errorImages i tr = [] \<and> successImages i tr \<noteq> [] \<and> \<not> exhausted i tr) \<or>
                length (errorImages i tr) = 1)))"

definition claimedCount :: "'r env \<Rightarrow> pool \<Rightarrow> nat" where
  "claimedCount e s = env_batchSize e - length (taskQueue s)"

definition heldCount :: "wstate list \<Rightarrow> nat" where
  "heldCount ws = sum_list (map (\<lambda>x. if held x = None then 0 else 1) ws)"

definition invQueue :: "'r env \<Rightarrow> pool \<Rightarrow> bool" where
  "invQueue e s =
     (length (taskQueue s) \<le> env_batchSize e \<and>
      taskQueue s = [claimedCount e s ..< env_batchSize e])"

definition invHeld :: "'r env \<Rightarrow> pool \<Rightarrow> bool" where
  "invHeld e s =
     (\<forall>w < length (workers s). \<forall>i. held (workers s ! w) = Some i \<longrightarrow>
        i < claimedCount e s \<and>
        (\<forall>w' < length (workers s). held (workers s ! w') = Some i \<longrightarrow> w' = w))"

definition invWorkers :: "pool \<Rightarrow> bool" where
  "invWorkers s = (\<forall>w < length (workers s). wsOk (aborted s) (trace s) (workers s ! w))"

definition isFree :: "pool \<Rightarrow> nat \<Rightarrow> bool" where
  "isFree s i = (\<forall>w < length (workers s). held (workers s ! w) \<noteq> Some i)"

definition invFree :: "'r env \<Rightarrow> pool \<Rightarrow> bool" where
  "invFree e s =
     (\<forall>i. isFree s i \<longrightarrow>
        (if i < claimedCount e s then resolvedOk (aborted s) (trace s) i
         else acts i (trace s) = []))"

definition invProgress :: "'r env \<Rightarrow> pool \<Rightarrow> bool" where
  "invProgress e s =
     (progressValues (trace s) =
        map (\<lambda>c. (c, env_batchSize e)) [1..<Suc (completedCount s)])"

definition invCount :: "'r env \<Rightarrow> pool \<Rightarrow> bool" where
  "invCount e s =
     (\<not> aborted s \<longrightarrow> completedCount s + heldCount (workers s) = claimedCount e s)"

definition invDrained :: "pool \<Rightarrow> bool" where
  "invDrained s = (\<not> aborted s \<and> Finished \<in> set (workers s) \<longrightarrow> taskQueue s = [])"

definition invAbort :: "pool \<Rightarrow> bool" where
  "invAbort s =
     ((aborted s \<longleftrightarrow> SignalAborted \<in> set (trace s)) \<and>
      (\<forall>a \<in> set (afterAbort (trace s)). isContentCallback a))"

fun errorImageShape :: "action \<Rightarrow> bool" where
  "errorImageShape (OnImage i img) =
     (img_status img = Error \<longrightarrow> img_data img = [] \<and> img_mimeType img = [])"
| "errorImageShape _ = True"

definition invShape :: "pool \<Rightarrow> bool" where
  "invShape s = (\<forall>a \<in> set (trace s). errorImageShape a)"

definition inv :: "'r env \<Rightarrow> pool \<Rightarrow> bool" where
  "inv e s =
     (invQueue e s \<and> invHeld e s \<and> invWorkers s \<and> invFree e s \<and> invProgress e s \<and>
      invCount e s \<and> invDrained s \<and> invAbort s \<and> invShape s)"


text \<open>What holds of every slot between two events.\<close>

definition slotOk :: "bool \<Rightarrow> action list \<Rightarrow> nat \<Rightarrow> bool" where
  "slotOk ab tr i =
     (prefix (attempts i tr) (fullPlan i) \<and>
      length (errorImages i tr) \<le> 1 \<and> length (progressCalls i tr) \<le> 1 \<and>
      (errorImages i tr \<noteq> [] \<longrightarrow> attempts i tr = fullPlan i) \<and>
      (exhausted i tr \<and> \<not> ab \<longrightarrow>
         length (progressCalls i tr) = 1 \<and> length (errorImages i tr) = 1))"

text \<open>Every worker is waiting or has returned: the state between two events.\<close>

definition suspended :: "pool \<Rightarrow> bool" where
  "suspended s = (\<forall>w < length (workers s). \<not> running (workers s ! w))"

definition initialPool :: "'r env \<Rightarrow> bool \<Rightarrow> pool" where
  "initialPool e alreadyAborted =
     \<lparr> taskQueue = [0..<env_batchSize e], completedCount = 0, aborted = alreadyAborted,
       workers = replicate (min MAX_CONCURRENT_REQUESTS (env_batchSize e)) Outer,
       trace = (if alreadyAborted then [SignalAborted] else []) \<rparr>"

text \<open>
  A bound on the events a worker can still consume for the slot it holds: a reply, and
  a timer and a reply for every attempt that may follow; seven for a slot in the queue.
\<close>

definition remaining :: "wstate \<Rightarrow> nat" where
  "remaining x =
     (case x of
        AwaitCall i a \<Rightarrow> 1 + 2 * (MAX_RETRIES - a)
      | AwaitDelay i a ms \<Rightarrow> 2 + 2 * (MAX_RETRIES - a)
      | Inner i a success \<Rightarrow>
          if a \<le> MAX_RETRIES \<and> \<not> success then 1 + 2 * (MAX_RETRIES - a) else 0
      | _ \<Rightarrow> 0)"

definition workLeft :: "pool \<Rightarrow> nat" where
  "workLeft s = (1 + 2 * MAX_RETRIES) * length (taskQueue s) + sum_list (map remaining (workers s))"

definition isAbort :: "'r event \<Rightarrow> bool" where
  "isAbort ev = (case ev of Abort \<Rightarrow> True | _ \<Rightarrow> False)"

section \<open>Sample batches\<close>

text \<open>
  Replies of the provider with one image part and with one text part, and a batch whose
  callbacks never abort the signal.
\<close>

definition imagePart :: response_part where
  "imagePart = \<lparr> part_inlineData = Some \<lparr> inl_data = js ''QUJD'', inl_mimeType = js ''image/png'',
                                         inl_mime_type = [] \<rparr>,
                 part_inline_data = None, part_text = [] \<rparr>"

definition textPart :: response_part where
  "textPart = \<lparr> part_inlineData = None, part_inline_data = None, part_text = js ''no'' \<rparr>"

definition sampleCandidate :: "response_part option list \<Rightarrow> candidate" where
  "sampleCandidate ps = \<lparr> cand_finishReason = [], cand_finish_reason = [], cand_parts = Some ps \<rparr>"

definition sampleReply :: "response_part option list \<Rightarrow> gemini_reply" where
  "sampleReply ps = GeminiReturns [sampleCandidate ps]"

definition sampleEnv :: "nat \<Rightarrow> gemini_reply env" where
  "sampleEnv k = geminiEnv sampleDeps k (\<lambda>tr. False)"



text \<open>
  A reply flagged by the safety filter that carries a text part, and the batch of one
  slot after its worker has received it.
\<close>

definition safetyTextReply :: gemini_reply where
  "safetyTextReply =
     GeminiReturns [\<lparr> cand_finishReason = js ''SAFETY'', cand_finish_reason = [],
                      cand_parts = Some [Some textPart] \<rparr>]"





section \<open>Properties of strings\<close>

lemma startsWith_iff: "startsWith s p \<longleftrightarrow> (\<exists>t. s = p @ t)"
  unfolding startsWith_def by (metis append_eq_conv_conj append_take_drop_id)

lemma stripPrefix_Some_iff: "stripPrefix p s = Some t \<longleftrightarrow> s = p @ t"
  by (auto simp: stripPrefix_def startsWith_iff)

lemma startsWith_includes: "startsWith s p \<Longrightarrow> str_includes s p"
  by (cases s) (auto simp: startsWith_def)

lemma includes_append: "str_includes (a @ p @ b) p"
proof (induction a)
  case Nil
  show ?case by (simp add: startsWith_includes startsWith_iff)
next
  case (Cons x a)
  then show ?case by simp
qed

lemma semicolon_marker: "js '';base64,'' = 59 # js ''base64,''"
  by (simp add: js_def)

lemma split_at_first:
  assumes "x \<notin> set m" shows "takeWhile (\<lambda>c. c \<noteq> x) (m @ x # r) = m"
    and "dropWhile (\<lambda>c. c \<noteq> x) (m @ x # r) = x # r"
  using assms by (induction m) auto

section \<open>Properties of the data-URI extractor\<close>

lemma matchDataUri_Some_iff:
  "matchDataUri u = Some (m, d) \<longleftrightarrow>
     u = js ''data:'' @ m @ js '';base64,'' @ d \<and> m \<noteq> [] \<and> 59 \<notin> set m \<and>
     d \<noteq> [] \<and> (\<forall>c \<in> set d. \<not> isLineTerminator c)"
    (is "?L \<longleftrightarrow> ?R")
proof
  assume ?L
  then obtain rest where r: "u = js ''data:'' @ rest"
    and m: "m = takeWhile (\<lambda>c. c \<noteq> 59) rest" and mne: "m \<noteq> []"
    and t: "dropWhile (\<lambda>c. c \<noteq> 59) rest = js '';base64,'' @ d"
    and dne: "d \<noteq> []" and dl: "\<forall>c \<in> set d. \<not> isLineTerminator c"
    by (auto simp: matchDataUri_def stripPrefix_Some_iff Let_def split: option.splits if_splits)
  have "rest = m @ js '';base64,'' @ d"
    using m t takeWhile_dropWhile_id[of "\<lambda>c. c \<noteq> 59" rest] by simp
  moreover have "59 \<notin> set m" using m by (auto dest: set_takeWhileD)
  ultimately show ?R using r mne dne dl by simp
next
  assume R: ?R
  then have u: "stripPrefix (js ''data:'') u = Some (m @ 59 # js ''base64,'' @ d)"
    by (simp add: stripPrefix_Some_iff semicolon_marker)
  have t: "stripPrefix (js '';base64,'') (59 # js ''base64,'' @ d) = Some d"
    by (simp add: stripPrefix_Some_iff semicolon_marker)
  from R have "59 \<notin> set m" by simp
  note sp = split_at_first[OF this, of "js ''base64,'' @ d"]
  from R have "m \<noteq> []" "d \<noteq> []" "\<forall>c \<in> set d. \<not> isLineTerminator c" by simp_all
  then show ?L
    unfolding matchDataUri_def u by (simp add: sp t Let_def)
qed

lemma matchDataUri_nonempty:
  assumes "matchDataUri u = Some (m, d)" shows "m \<noteq> []" and "d \<noteq> []"
  using assms by (simp_all add: matchDataUri_Some_iff)

lemma extractBase64Data_match:
  "extractBase64Data u iid =
     (case matchDataUri u of None \<Rightarrow> (None, [InvalidImageDataFormat iid])
                           | Some r \<Rightarrow> (Some r, []))"
proof (cases "matchDataUri u")
  case None
  then show ?thesis by (simp add: extractBase64Data_def)
next
  case (Some r)
  obtain m d where r: "r = (m, d)" by (cases r)
  with Some matchDataUri_nonempty[of u m d] show ?thesis
    by (simp add: extractBase64Data_def)
qed

lemma extractBase64DataOpenAI_match: "extractBase64DataOpenAI u = matchDataUri u"
proof (cases "matchDataUri u")
  case None
  then show ?thesis by (simp add: extractBase64DataOpenAI_def)
next
  case (Some r)
  obtain m d where r: "r = (m, d)" by (cases r)
  with Some matchDataUri_nonempty[of u m d] show ?thesis
    by (simp add: extractBase64DataOpenAI_def)
qed

lemma matchDataUri_includes_marker:
  assumes "matchDataUri u = Some r" shows "str_includes u (js ''base64,'')"
proof -
  obtain m d where "r = (m, d)" by (cases r)
  with assms have "u = (js ''data:'' @ m @ [59]) @ js ''base64,'' @ d"
    by (simp add: matchDataUri_Some_iff semicolon_marker)
  then show ?thesis using includes_append[of "js ''data:'' @ m @ [59]" "js ''base64,''" d] by simp
qed

lemma matchDataUri_empty_payload:
  assumes nosemi: "59 \<notin> set mime"
  shows "matchDataUri (dataUriOf mime []) = None"
proof (cases "matchDataUri (dataUriOf mime [])")
  case None then show ?thesis .
next
  case (Some r)
  obtain m d where r: "r = (m, d)" by (cases r)
  with Some have e: "dataUriOf mime [] = dataUriOf m d"
    and m: "59 \<notin> set m" and d: "d \<noteq> []"
    by (simp_all add: matchDataUri_Some_iff dataUriOf_def)
  from e have e': "mime @ 59 # js ''base64,'' = m @ 59 # (js ''base64,'' @ d)"
    by (simp add: dataUriOf_def semicolon_marker)
  have "takeWhile (\<lambda>c. c \<noteq> 59) (mime @ 59 # js ''base64,'') = mime"
    using nosemi by (rule split_at_first)
  moreover have "takeWhile (\<lambda>c. c \<noteq> 59) (m @ 59 # (js ''base64,'' @ d)) = m"
    using m by (rule split_at_first)
  ultimately have "mime = m" using e' by simp
  with e' d show ?thesis by simp
qed

text \<open>
  C8. Decoding the data URI \<open>data:{mime};base64,{data}\<close> returns the pair it was built
  from and logs nothing, for every mime type (a non-empty string without a semicolon) and
  every payload (a non-empty string without line terminators, which covers the base64
  alphabet). A URI without the \<open>base64,\<close> marker, and a URI whose payload is empty, decode
  to null with one diagnostic logged. The extractor has no raising branch.
\<close>

theorem extractBase64Data_roundtrip:
  "(mime \<noteq> [] \<and> 59 \<notin> set mime \<and> payload \<noteq> [] \<and> (\<forall>c \<in> set payload. \<not> isLineTerminator c)
      \<longrightarrow> extractBase64Data (dataUriOf mime payload) iid = (Some (mime, payload), []))
   \<and> (\<not> str_includes uri (js ''base64,'')
      \<longrightarrow> extractBase64Data uri iid = (None, [InvalidImageDataFormat iid]))
   \<and> (59 \<notin> set mime
      \<longrightarrow> extractBase64Data (dataUriOf mime []) iid = (None, [InvalidImageDataFormat iid]))"
proof (intro conjI impI)
  assume "mime \<noteq> [] \<and> 59 \<notin> set mime \<and> payload \<noteq> [] \<and> (\<forall>c \<in> set payload. \<not> isLineTerminator c)"
  then have "matchDataUri (dataUriOf mime payload) = Some (mime, payload)"
    by (simp add: matchDataUri_Some_iff dataUriOf_def)
  then show "extractBase64Data (dataUriOf mime payload) iid = (Some (mime, payload), [])"
    by (simp add: extractBase64Data_match)
next
  assume "\<not> str_includes uri (js ''base64,'')"
  then have "matchDataUri uri = None"
    using matchDataUri_includes_marker by (cases "matchDataUri uri") auto
  then show "extractBase64Data uri iid = (None, [InvalidImageDataFormat iid])"
    by (simp add: extractBase64Data_match)
next
  assume "59 \<notin> set mime"
  then show "extractBase64Data (dataUriOf mime []) iid = (None, [InvalidImageDataFormat iid])"
    by (simp add: extractBase64Data_match matchDataUri_empty_payload)
qed

theorem extractBase64Data_roundtrip_witness:
  "extractBase64Data (dataUriOf (js ''image/png'') (js ''iVBORw0KGgo='')) (js ''a1'') =
      (Some (js ''image/png'', js ''iVBORw0KGgo=''), [])
   \<and> extractBase64Data (js ''data:image/png;AAAA'') (js ''a1'') =
      (None, [InvalidImageDataFormat (js ''a1'')])
   \<and> extractBase64Data (dataUriOf (js ''image/png'') []) (js ''a1'') =
      (None, [InvalidImageDataFormat (js ''a1'')])"
  using extractBase64Data_roundtrip[of "js ''image/png''" "js ''iVBORw0KGgo=''" "js ''a1''"
      "js ''data:image/png;AAAA''"]
  by (simp add: js_def isLineTerminator_def startsWith_def)

section \<open>Properties of the Gemini proxy endpoint\<close>


lemma endsWith_last:
  assumes "endsWith s p" and "p \<noteq> []" shows "last s = last p"
proof -
  from assms(1) have "s = take (length s - length p) s @ p"
    by (metis append_take_drop_id endsWith_def)
  then show ?thesis using assms(2) by (metis last_appendR)
qed

lemma versioned_root_not_models:
  assumes "endsWith n (js ''/v1beta'') \<or> endsWith n (js ''/v1'')"
  shows "\<not> endsWith n (js ''/models'')"
proof
  assume m: "endsWith n (js ''/models'')"
  have "last n = 115" using endsWith_last[OF m] by (simp add: js_def)
  moreover have "last n = 97 \<or> last n = 49"
    using assms endsWith_last[of n "js ''/v1beta''"] endsWith_last[of n "js ''/v1''"]
    by (auto simp: js_def)
  ultimately show False by simp
qed

lemma empty_url_facts:
  "stripTrailingSlashes [] = []" "\<not> str_includes [] (js '':generateContent'')"
  "\<not> endsWithModelName []" "\<not> endsWith [] (js ''/v1beta'')" "\<not> endsWith [] (js ''/v1'')"
  by (simp_all add: stripTrailingSlashes_def endsWithModelName_def endsWith_def js_def)

lemma buildGeminiEndpoint_cases:
  fixes baseUrl modelName
  defines "n \<equiv> stripTrailingSlashes (trim baseUrl)"
  shows "str_includes n (js '':generateContent'') \<Longrightarrow> buildGeminiEndpoint baseUrl modelName = n"
    and "\<not> str_includes n (js '':generateContent'') \<Longrightarrow> endsWithModelName n \<Longrightarrow>
          buildGeminiEndpoint baseUrl modelName = n @ js '':generateContent''"
    and "\<not> str_includes n (js '':generateContent'') \<Longrightarrow> \<not> endsWithModelName n \<Longrightarrow>
          endsWith n (js ''/v1beta'') \<or> endsWith n (js ''/v1'') \<Longrightarrow>
          buildGeminiEndpoint baseUrl modelName =
            n @ js ''/models/'' @ modelName @ js '':generateContent''"
proof -
  show "str_includes n (js '':generateContent'') \<Longrightarrow> buildGeminiEndpoint baseUrl modelName = n"
    unfolding n_def buildGeminiEndpoint_def Let_def
    by (cases "trim baseUrl = []") (simp_all add: empty_url_facts)
  show "\<not> str_includes n (js '':generateContent'') \<Longrightarrow> endsWithModelName n \<Longrightarrow>
          buildGeminiEndpoint baseUrl modelName = n @ js '':generateContent''"
    unfolding n_def buildGeminiEndpoint_def Let_def
    by (cases "trim baseUrl = []") (simp_all add: empty_url_facts)
  show "\<not> str_includes n (js '':generateContent'') \<Longrightarrow> \<not> endsWithModelName n \<Longrightarrow>
          endsWith n (js ''/v1beta'') \<or> endsWith n (js ''/v1'') \<Longrightarrow>
          buildGeminiEndpoint baseUrl modelName =
            n @ js ''/models/'' @ modelName @ js '':generateContent''"
    unfolding n_def buildGeminiEndpoint_def Let_def
    using versioned_root_not_models[of "stripTrailingSlashes (trim baseUrl)"]
    by (cases "trim baseUrl = []") (auto simp add: empty_url_facts)
qed

lemma buildGeminiEndpoint_nonempty:
  assumes "trim baseUrl \<noteq> []" shows "buildGeminiEndpoint baseUrl modelName \<noteq> []"
proof -
  have "str_includes n (js '':generateContent'') \<Longrightarrow> n \<noteq> []" for n
    by (cases n) (simp_all add: js_def)
  then show ?thesis using assms
    by (auto simp: buildGeminiEndpoint_def Let_def js_def)
qed

lemma appendKeyParam_nonempty:
  assumes "url \<noteq> []" and "appendKeyParam url apiKey = Inr u" shows "u \<noteq> []"
  using assms by (auto simp: appendKeyParam_def Let_def split: if_splits option.splits)

text \<open>
  C7. With \<open>n\<close> the base URL trimmed and stripped of its trailing slashes, the endpoint
  is \<open>n\<close> itself when \<open>n\<close> contains \<open>:generateContent\<close>; otherwise \<open>n\<close> followed by
  \<open>:generateContent\<close> when \<open>n\<close> ends in \<open>/models/{name}\<close>; otherwise, when \<open>n\<close> ends in
  \<open>/v1beta\<close> or \<open>/v1\<close>, \<open>n\<close> followed by \<open>/models/{model}:generateContent\<close>. For a
  base URL that is not blank and a key that is not empty (and that \<open>encodeURIComponent\<close>
  accepts), the request is built, carries the key as \<open>Authorization: Bearer\<close> header and
  as \<open>x-goog-api-key\<close> header, and its URL is the endpoint with \<open>key=\<close> and the encoded
  key appended, unless the endpoint already contains \<open>key=\<close>.
\<close>

theorem gemini_proxy_endpoint_and_key:
  fixes baseUrl modelName apiKey contents imageConfig
  defines "n \<equiv> stripTrailingSlashes (trim baseUrl)"
  defines "ep \<equiv> buildGeminiEndpoint baseUrl modelName"
  shows "(str_includes n (js '':generateContent'') \<longrightarrow> ep = n)
    \<and> (\<not> str_includes n (js '':generateContent'') \<and> endsWithModelName n
         \<longrightarrow> ep = n @ js '':generateContent'')
    \<and> (\<not> str_includes n (js '':generateContent'') \<and> \<not> endsWithModelName n \<and>
        (endsWith n (js ''/v1beta'') \<or> endsWith n (js ''/v1''))
         \<longrightarrow> ep = n @ js ''/models/'' @ modelName @ js '':generateContent'')
    \<and> (trim baseUrl \<noteq> [] \<and> apiKey \<noteq> [] \<and> encodeURIComponent apiKey = Some encoded
         \<longrightarrow> (\<exists>req. fetchGeminiGenerateContent baseUrl apiKey modelName contents imageConfig = Inr req
              \<and> (js ''Authorization'', js ''Bearer '' @ apiKey) \<in> set (req_headers req)
              \<and> (js ''x-goog-api-key'', apiKey) \<in> set (req_headers req)
              \<and> req_url req =
                  (if str_includes ep (js ''key='') then ep
                   else ep @ (if str_includes ep (js ''?'') then js ''&'' else js ''?'') @
                        js ''key='' @ encoded)))"
proof (intro conjI impI)
  show "str_includes n (js '':generateContent'') \<Longrightarrow> ep = n"
    unfolding n_def ep_def by (rule buildGeminiEndpoint_cases)
  show "\<not> str_includes n (js '':generateContent'') \<and> endsWithModelName n
         \<Longrightarrow> ep = n @ js '':generateContent''"
    unfolding n_def ep_def by (simp add: buildGeminiEndpoint_cases)
  show "\<not> str_includes n (js '':generateContent'') \<and> \<not> endsWithModelName n \<and>
        (endsWith n (js ''/v1beta'') \<or> endsWith n (js ''/v1''))
         \<Longrightarrow> ep = n @ js ''/models/'' @ modelName @ js '':generateContent''"
    unfolding n_def ep_def using buildGeminiEndpoint_cases(3)[of baseUrl modelName] by blast
  assume a: "trim baseUrl \<noteq> [] \<and> apiKey \<noteq> [] \<and> encodeURIComponent apiKey = Some encoded"
  then have ne: "ep \<noteq> []" unfolding ep_def by (simp add: buildGeminiEndpoint_nonempty)
  from a ne show "\<exists>req. fetchGeminiGenerateContent baseUrl apiKey modelName contents imageConfig = Inr req
              \<and> (js ''Authorization'', js ''Bearer '' @ apiKey) \<in> set (req_headers req)
              \<and> (js ''x-goog-api-key'', apiKey) \<in> set (req_headers req)
              \<and> req_url req =
                  (if str_includes ep (js ''key='') then ep
                   else ep @ (if str_includes ep (js ''?'') then js ''&'' else js ''?'') @
                        js ''key='' @ encoded)"
    unfolding ep_def fetchGeminiGenerateContent_def appendKeyParam_def Let_def
    by (simp add: js_def)
qed

theorem gemini_proxy_endpoint_and_key_witness:
  "buildGeminiEndpoint (js '' https://p.example/x:generateContent/ '') (js ''m'') =
     js ''https://p.example/x:generateContent''
   \<and> buildGeminiEndpoint (js ''https://p.example/v1beta/models/nano'') (js ''m'') =
     js ''https://p.example/v1beta/models/nano:generateContent''
   \<and> buildGeminiEndpoint (js ''https://p.example/v1//'') (js ''m'') =
     js ''https://p.example/v1/models/m:generateContent''
   \<and> (\<exists>req. fetchGeminiGenerateContent (js ''https://p.example/v1//'') (js ''k y'') (js ''m'') [] None = Inr req
        \<and> (js ''Authorization'', js ''Bearer k y'') \<in> set (req_headers req)
        \<and> (js ''x-goog-api-key'', js ''k y'') \<in> set (req_headers req)
        \<and> req_url req = js ''https://p.example/v1/models/m:generateContent?key=k%20y'')"
proof -
  have enc: "encodeURIComponent (js ''k y'') = Some (js ''k%20y'')"
    by (simp add: js_def isUnreserved_def isHighSurrogate_def isLowSurrogate_def
        percentEncode_def utf8_def percentByte_def hexDigit_def)
  have n1: "stripTrailingSlashes (trim (js '' https://p.example/x:generateContent/ '')) =
      js ''https://p.example/x:generateContent''"
    and n2: "stripTrailingSlashes (trim (js ''https://p.example/v1beta/models/nano'')) =
      js ''https://p.example/v1beta/models/nano''"
    and n3: "stripTrailingSlashes (trim (js ''https://p.example/v1//'')) = js ''https://p.example/v1''"
    and t3: "trim (js ''https://p.example/v1//'') \<noteq> []"
    by (simp_all add: trim_def stripTrailingSlashes_def isWhiteSpace_def js_def)
  have c1: "str_includes (js ''https://p.example/x:generateContent'') (js '':generateContent'')"
    and c2: "\<not> str_includes (js ''https://p.example/v1beta/models/nano'') (js '':generateContent'')"
      "endsWithModelName (js ''https://p.example/v1beta/models/nano'')"
    and c3: "\<not> str_includes (js ''https://p.example/v1'') (js '':generateContent'')"
      "\<not> endsWithModelName (js ''https://p.example/v1'')"
      "endsWith (js ''https://p.example/v1'') (js ''/v1'')"
    and c4: "\<not> str_includes (js ''https://p.example/v1/models/m:generateContent'') (js ''key='')"
      "\<not> str_includes (js ''https://p.example/v1/models/m:generateContent'') (js ''?'')"
    by (simp_all add: js_def startsWith_def endsWith_def endsWithModelName_def)
  have js_append: "js a @ js b = js (a @ b)" for a b by (simp add: js_def)
  have k: "js ''k y'' \<noteq> []" by (simp add: js_def)
  have r1: "buildGeminiEndpoint (js '' https://p.example/x:generateContent/ '') (js ''m'') =
     js ''https://p.example/x:generateContent''"
    using gemini_proxy_endpoint_and_key[of "js '' https://p.example/x:generateContent/ ''" "js ''m''"]
    by (simp add: n1 c1)
  have r2: "buildGeminiEndpoint (js ''https://p.example/v1beta/models/nano'') (js ''m'') =
     js ''https://p.example/v1beta/models/nano:generateContent''"
    using gemini_proxy_endpoint_and_key[of "js ''https://p.example/v1beta/models/nano''" "js ''m''"]
    by (simp add: n2 c2 js_append)
  have r3: "buildGeminiEndpoint (js ''https://p.example/v1//'') (js ''m'') =
     js ''https://p.example/v1/models/m:generateContent''"
    using gemini_proxy_endpoint_and_key[of "js ''https://p.example/v1//''" "js ''m''"]
    by (simp add: n3 c3 js_append)
  have r4: "\<exists>req. fetchGeminiGenerateContent (js ''https://p.example/v1//'') (js ''k y'') (js ''m'') [] None = Inr req
        \<and> (js ''Authorization'', js ''Bearer k y'') \<in> set (req_headers req)
        \<and> (js ''x-goog-api-key'', js ''k y'') \<in> set (req_headers req)
        \<and> req_url req = js ''https://p.example/v1/models/m:generateContent?key=k%20y''"
    using gemini_proxy_endpoint_and_key[of "js ''https://p.example/v1//''" "js ''m''" "js ''k y''"
        "js ''k%20y''" "[]" None]
    by (simp add: t3 k enc r3 c4 js_append)
  from r1 r2 r3 r4 show ?thesis by blast
qed

section \<open>Properties of the request normalizer\<close>


lemma eraseText_fields:
  "msg_role (eraseText m) = msg_role m" "msg_images (eraseText m) = msg_images m"
  "msg_selectedImageId (eraseText m) = msg_selectedImageId m"
  by (simp_all add: eraseText_def)

lemma selectedImageInput_eraseText [simp]:
  "selectedImageInput d (eraseText msg) = selectedImageInput d msg"
  unfolding selectedImageInput_def eraseText_fields by (rule refl)

lemma selectedImageUrlOpenAI_eraseText [simp]:
  "selectedImageUrlOpenAI d (eraseText msg) = selectedImageUrlOpenAI d msg"
  unfolding selectedImageUrlOpenAI_def eraseText_fields by (rule refl)

lemma historyEntry_eraseText [simp]: "historyEntry (eraseText msg) = historyEntry msg"
  unfolding historyEntry_def eraseText_fields by (rule refl)

lemma collectSelectedImages_eraseText:
  "collectSelectedImages d (map eraseText h) = collectSelectedImages d h"
  by (induction h) simp_all

lemma collectSelectedImagesOpenAI_eraseText:
  "collectSelectedImagesOpenAI d (map eraseText h) = collectSelectedImagesOpenAI d h"
  by (induction h) simp_all

lemma buildHistoryEarlier_eraseText:
  "buildHistoryEarlier (map eraseText h) = buildHistoryEarlier h"
  by (induction h) (simp_all split: option.splits)

lemma collect_text_independent:
  assumes "map eraseText h1 = map eraseText h2"
  shows "collectSelectedImages d h1 = collectSelectedImages d h2"
    and "collectSelectedImagesOpenAI d h1 = collectSelectedImagesOpenAI d h2"
    and "buildHistoryEarlier h1 = buildHistoryEarlier h2"
  using assms collectSelectedImages_eraseText[of d h1] collectSelectedImages_eraseText[of d h2]
    collectSelectedImagesOpenAI_eraseText[of d h1] collectSelectedImagesOpenAI_eraseText[of d h2]
    buildHistoryEarlier_eraseText[of h1] buildHistoryEarlier_eraseText[of h2]
  by simp_all

lemma historyEntry_role:
  assumes "fst (historyEntry msg) = Some c" shows "fst c = Model"
  using assms
  by (auto simp: historyEntry_def Let_def split: if_splits option.splits prod.splits)

lemma buildHistoryEarlier_no_user: "userMessages (buildHistoryEarlier h) = 0"
proof -
  have "\<forall>c \<in> set (buildHistoryEarlier h). fst c = Model"
    by (induction h) (auto dest: historyEntry_role split: option.splits)
  then show ?thesis by (auto simp: userMessages_def filter_empty_conv)
qed

text \<open>
  C10. Two histories that agree once the text fields of their messages are blanked yield
  the same outbound contents, in the Gemini dispatcher, in its earlier revision (whose
  history entries are the selected images) and in the OpenAI-compatible dispatcher; and
  the contents hold exactly one user-role message, the current one.
\<close>

theorem outbound_contents_ignore_prior_text:
  assumes "map eraseText h1 = map eraseText h2"
  shows "geminiRequestContents d apiKey prompt h1 ups = geminiRequestContents d apiKey prompt h2 ups
    \<and> openaiRequestMessages d apiKey prompt h1 ups = openaiRequestMessages d apiKey prompt h2 ups
    \<and> geminiContentsEarlier h1 userParts = geminiContentsEarlier h2 userParts
    \<and> (\<forall>cs. geminiRequestContents d apiKey prompt h1 ups = Inr cs \<longrightarrow> userMessages cs = 1)
    \<and> (\<forall>ms. openaiRequestMessages d apiKey prompt h1 ups = Inr ms \<longrightarrow> userMessages ms = 1)
    \<and> userMessages (geminiContentsEarlier h1 userParts) = 1"
proof -
  note ti = collect_text_independent[OF assms]
  have g: "geminiUserParts d apiKey prompt h1 ups = geminiUserParts d apiKey prompt h2 ups"
    unfolding geminiUserParts_def ti(1)[of d] by (rule refl)
  have o: "openaiUserContent d apiKey prompt h1 ups = openaiUserContent d apiKey prompt h2 ups"
    unfolding openaiUserContent_def ti(2)[of d] by (rule refl)
  have "geminiRequestContents d apiKey prompt h1 ups = geminiRequestContents d apiKey prompt h2 ups"
    by (simp add: geminiRequestContents_def g geminiContents_def buildHistory_def split: sum.splits)
  moreover have "openaiRequestMessages d apiKey prompt h1 ups = openaiRequestMessages d apiKey prompt h2 ups"
    by (simp add: openaiRequestMessages_def o openaiMessages_def buildHistoryOpenAI_def split: sum.splits)
  moreover have "geminiContentsEarlier h1 userParts = geminiContentsEarlier h2 userParts"
    by (simp add: geminiContentsEarlier_def ti(3))
  moreover have "\<forall>cs. geminiRequestContents d apiKey prompt h1 ups = Inr cs \<longrightarrow> userMessages cs = 1"
    by (auto simp: geminiRequestContents_def geminiContents_def buildHistory_def userMessages_def
        split: sum.splits)
  moreover have "\<forall>ms. openaiRequestMessages d apiKey prompt h1 ups = Inr ms \<longrightarrow> userMessages ms = 1"
    by (auto simp: openaiRequestMessages_def openaiMessages_def buildHistoryOpenAI_def
        userMessages_def split: sum.splits)
  moreover have "userMessages (geminiContentsEarlier h1 userParts) = 1"
    using buildHistoryEarlier_no_user[of h1]
    by (simp add: geminiContentsEarlier_def userMessages_def)
  ultimately show ?thesis by blast
qed


theorem outbound_contents_ignore_prior_text_witness:
  "geminiRequestContents sampleDeps (js ''key'') (js ''draw it again'')
       [sampleModelMessage (Some (js ''a private note''))] None =
     geminiRequestContents sampleDeps (js ''key'') (js ''draw it again'')
       [sampleModelMessage (Some (js ''something else''))] None
   \<and> openaiRequestMessages sampleDeps (js ''key'') (js ''draw it again'')
       [sampleModelMessage (Some (js ''a private note''))] None =
     openaiRequestMessages sampleDeps (js ''key'') (js ''draw it again'')
       [sampleModelMessage (Some (js ''something else''))] None
   \<and> geminiContentsEarlier [sampleModelMessage (Some (js ''a private note''))] [TextPart (js ''draw it again'')] =
     geminiContentsEarlier [sampleModelMessage (Some (js ''something else''))] [TextPart (js ''draw it again'')]
   \<and> userMessages (geminiContentsEarlier [sampleModelMessage (Some (js ''a private note''))]
         [TextPart (js ''draw it again'')]) = 1"
proof -
  have "map eraseText [sampleModelMessage (Some (js ''a private note''))] =
        map eraseText [sampleModelMessage (Some (js ''something else''))]"
    by (simp add: eraseText_def sampleModelMessage_def)
  from outbound_contents_ignore_prior_text[OF this] show ?thesis by blast
qed

subsection \<open>Rejection before dispatch\<close>

lemma js_nonempty [simp]: "js (c # s) \<noteq> []"
  by (simp add: js_def)

lemma uploadedImageInput_cases:
  "uploadedImageInput d img =
     (case matchDataUri (up_data img) of
        None \<Rightarrow> (None, [InvalidImageDataFormat (up_id img)])
      | Some (mime, b64) \<Rightarrow>
          if exceedsMaxSize d b64 then (None, [ImageTooLarge (up_id img)])
          else (Some \<lparr> inp_mimeType = mime, inp_base64Data = b64 \<rparr>, []))"
  by (simp add: uploadedImageInput_def extractBase64Data_match split: option.splits)

lemma gemini_upload_diagnostics:
  "length (fst (uploadedImageInputs d ups)) + length (snd (uploadedImageInputs d ups)) = length ups"
  by (induction ups)
     (auto simp: uploadedImageInput_cases split: prod.splits option.splits if_splits)

lemma gemini_preflight_rejects_iff:
  assumes "validateInput d apiKey prompt = None"
  shows "(\<exists>e. fst (geminiUserParts d apiKey prompt history uploadedImages) = Inl e) \<longleftrightarrow>
         ((\<exists>ups. uploadedImages = Some ups \<and> ups \<noteq> [] \<and> fst (uploadedImageInputs d ups) = []) \<or>
          (prompt = [] \<and> fst (collectSelectedImages d history) = [] \<and>
           (\<forall>ups. uploadedImages = Some ups \<longrightarrow> fst (uploadedImageInputs d ups) = [])))"
  using assms
  by (cases uploadedImages)
     (auto simp: geminiUserParts_def Let_def split: prod.splits if_splits)

lemma openai_preflight_rejects_iff:
  assumes "validateInput d apiKey prompt = None"
  shows "(\<exists>e. fst (openaiUserContent d apiKey prompt history uploadedImages) = Inl e) \<longleftrightarrow>
         (prompt = [] \<and> fst (collectSelectedImagesOpenAI d history) = [] \<and>
           (\<forall>ups. uploadedImages = Some ups \<longrightarrow> fst (uploadedImageUrlsOpenAI d ups) = []))"
  using assms
  by (cases uploadedImages)
     (auto simp: openaiUserContent_def Let_def split: prod.splits if_splits)

lemma match_sample:
  "matchDataUri (js ''data:image/png;base64,AAAA'') = Some (js ''image/png'', js ''AAAA'')"
  by (simp add: matchDataUri_def stripPrefix_def startsWith_def js_def isLineTerminator_def)

lemma match_bad: "matchDataUri (js ''not-a-data-uri'') = None"
  by (simp add: matchDataUri_def stripPrefix_def startsWith_def js_def)

lemma sample_small: "\<not> exceedsMaxSize sampleDeps (js ''AAAA'')"
  by (simp add: exceedsMaxSize_def sampleDeps_def js_def)

lemma sample_valid: "validateInput sampleDeps k p = None"
  by (simp add: validateInput_def sampleDeps_def)

text \<open>
  C5. The preflight of the Gemini dispatcher rejects exactly in the two cases of the
  claim and logs one diagnostic per dropped upload (the two lemmas above). The preflight
  of the OpenAI-compatible dispatcher does not: given a prompt and one upload that is not a
  data URI, it drops the upload without a diagnostic and goes on to dispatch the text
  alone, where the Gemini preflight rejects the batch.
\<close>

theorem openai_preflight_accepts_batch_without_valid_upload:
  "openaiUserContent sampleDeps (js ''key'') (js ''hi'') []
       (Some [sampleUpload (js ''u1'') (js ''not-a-data-uri'')]) = (Inr [OaText (js ''hi'')], [])
   \<and> geminiUserParts sampleDeps (js ''key'') (js ''hi'') []
       (Some [sampleUpload (js ''u1'') (js ''not-a-data-uri'')]) =
     (Inl (ImageProcessingError
          (js ''No valid images could be processed. Please check image format and size.'')),
      [InvalidImageDataFormat (js ''u1'')])"
  by (simp add: openaiUserContent_def geminiUserParts_def sample_valid uploadedImageUrlOpenAI_def
      uploadedImageInput_def extractBase64Data_match extractBase64DataOpenAI_match match_bad
      sampleUpload_def)

subsection \<open>The image-order legend\<close>

lemma gemini_prompt_text:
  assumes "fst (geminiUserParts d apiKey prompt history uploadedImages) = Inr userParts"
    and "prompt \<noteq> []"
  shows "userParts =
           TextPart (enhancePrompt prompt (length (fst (collectSelectedImages d history) @
               (case uploadedImages of None \<Rightarrow> [] | Some ups \<Rightarrow> fst (uploadedImageInputs d ups))))) #
           map inlinePart (fst (collectSelectedImages d history) @
               (case uploadedImages of None \<Rightarrow> [] | Some ups \<Rightarrow> fst (uploadedImageInputs d ups)))"
  using assms
  by (auto simp: geminiUserParts_def Let_def split: option.splits prod.splits if_splits)

lemma enhancePrompt_cases:
  "1 < n \<Longrightarrow> hasImageReference prompt \<Longrightarrow> enhancePrompt prompt n = imageLegend n @ prompt"
  "n \<le> 1 \<Longrightarrow> enhancePrompt prompt n = prompt"
  by (simp_all add: enhancePrompt_def)

lemma openai_prompt_text:
  assumes "fst (openaiUserContent d apiKey prompt history uploadedImages) = Inr userContent"
    and "prompt \<noteq> []"
  shows "\<exists>imageParts. userContent = OaText prompt # imageParts"
  using assms
  by (auto simp: openaiUserContent_def Let_def split: option.splits prod.splits if_splits)

lemma sample_reference: "hasImageReference (js ''combine image 1 with image 2'')"
  by (simp add: js_def imageRefAt_def headIs_def startsWithIgnoreCase_def eqIgnoreCase_def
      isDigit19_def isWhiteSpace_def)

lemma toString_digit: "n < 10 \<Longrightarrow> toString n = [0x30 + n]"
  by (simp add: toString.simps)

lemma sample_legend:
  "imageLegend 2 = js ''???????????1????????????2????????'' @ [0x0A, 0x0A]"
  by (simp add: imageLegend_def imageLabel_def chineseNumerals_def Let_def toString_digit
      js_def upt_rec numeral_2_eq_2)

text \<open>
  C6. The Gemini dispatcher sends \<open>enhancePrompt\<close> of the prompt and the number of
  surviving images: the legend and the prompt when there are two or more images and the
  prompt has an ordinal reference, the prompt itself otherwise (the lemmas above). The
  literals of the legend are question marks in the source, so the legend for two images
  is a row of question marks with the numbers 1 and 2 in it. The OpenAI-compatible
  dispatcher sends the prompt as it is: with two surviving images and the prompt
  \<open>combine image 1 with image 2\<close> its text part has no legend, where the Gemini
  dispatcher puts one.
\<close>

theorem openai_prompt_sent_without_legend:
  "fst (openaiUserContent sampleDeps (js ''key'') (js ''combine image 1 with image 2'') []
       (Some [sampleUpload (js ''u1'') (js ''data:image/png;base64,AAAA''),
              sampleUpload (js ''u2'') (js ''data:image/png;base64,AAAA'')])) =
     Inr [OaText (js ''combine image 1 with image 2''),
          OaImageUrl (js ''data:image/png;base64,AAAA''),
          OaImageUrl (js ''data:image/png;base64,AAAA'')]
   \<and> fst (geminiUserParts sampleDeps (js ''key'') (js ''combine image 1 with image 2'') []
       (Some [sampleUpload (js ''u1'') (js ''data:image/png;base64,AAAA''),
              sampleUpload (js ''u2'') (js ''data:image/png;base64,AAAA'')])) =
     Inr [TextPart (js ''???????????1????????????2????????'' @ [0x0A, 0x0A] @
                    js ''combine image 1 with image 2''),
          InlineData (js ''image/png'') (js ''AAAA''),
          InlineData (js ''image/png'') (js ''AAAA'')]"
proof -
  have "fst (openaiUserContent sampleDeps (js ''key'') (js ''combine image 1 with image 2'') []
       (Some [sampleUpload (js ''u1'') (js ''data:image/png;base64,AAAA''),
              sampleUpload (js ''u2'') (js ''data:image/png;base64,AAAA'')])) =
     Inr [OaText (js ''combine image 1 with image 2''),
          OaImageUrl (js ''data:image/png;base64,AAAA''),
          OaImageUrl (js ''data:image/png;base64,AAAA'')]"
    by (simp add: openaiUserContent_def sample_valid uploadedImageUrlOpenAI_def
        sample_small extractBase64DataOpenAI_match match_sample sampleUpload_def)
  moreover
  have "fst (geminiUserParts sampleDeps (js ''key'') (js ''combine image 1 with image 2'') []
       (Some [sampleUpload (js ''u1'') (js ''data:image/png;base64,AAAA''),
              sampleUpload (js ''u2'') (js ''data:image/png;base64,AAAA'')])) =
     Inr [TextPart (imageLegend 2 @ js ''combine image 1 with image 2''),
          InlineData (js ''image/png'') (js ''AAAA''),
          InlineData (js ''image/png'') (js ''AAAA'')]"
    by (simp add: geminiUserParts_def sample_valid uploadedImageInput_def sample_small
        extractBase64Data_match match_sample sampleUpload_def enhancePrompt_def
        sample_reference inlinePart_def numeral_2_eq_2)
  ultimately show ?thesis unfolding sample_legend by simp
qed



section \<open>Properties of traces\<close>

lemma acts_simps [simp]:
  "acts i [] = []"
  "acts i (a # tr) = (if slotOf a = Some i then a # acts i tr else acts i tr)"
  "acts i (tr @ tr') = acts i tr @ acts i tr'"
  by (simp_all add: acts_def)

lemma attempts_simps [simp]:
  "attempts i [] = []"
  "attempts i (a # tr) = (if isAttemptStepOf i a then a # attempts i tr else attempts i tr)"
  "attempts i (tr @ tr') = attempts i tr @ attempts i tr'"
  by (simp_all add: attempts_def)

lemma successImages_simps [simp]:
  "successImages i [] = []"
  "successImages i (a # tr) =
     (if isSuccessImageOf i a then a # successImages i tr else successImages i tr)"
  "successImages i (tr @ tr') = successImages i tr @ successImages i tr'"
  by (simp_all add: successImages_def)

lemma errorImages_simps [simp]:
  "errorImages i [] = []"
  "errorImages i (a # tr) = (if isErrorImageOf i a then a # errorImages i tr else errorImages i tr)"
  "errorImages i (tr @ tr') = errorImages i tr @ errorImages i tr'"
  by (simp_all add: errorImages_def)

lemma textCalls_simps [simp]:
  "textCalls i [] = []"
  "textCalls i (a # tr) = (if isTextOf i a then a # textCalls i tr else textCalls i tr)"
  "textCalls i (tr @ tr') = textCalls i tr @ textCalls i tr'"
  by (simp_all add: textCalls_def)

lemma progressCalls_simps [simp]:
  "progressCalls i [] = []"
  "progressCalls i (a # tr) = (if isProgressOf i a then a # progressCalls i tr else progressCalls i tr)"
  "progressCalls i (tr @ tr') = progressCalls i tr @ progressCalls i tr'"
  by (simp_all add: progressCalls_def)

lemma progressValues_simps [simp]:
  "progressValues [] = []"
  "progressValues (a # tr) = progressValue a @ progressValues tr"
  "progressValues (tr @ tr') = progressValues tr @ progressValues tr'"
  by (simp_all add: progressValues_def)

lemma exhausted_simps [simp]:
  "exhausted i [] = False"
  "exhausted i (a # tr) = (isLastFailureOf i a \<or> exhausted i tr)"
  "exhausted i (tr @ tr') = (exhausted i tr \<or> exhausted i tr')"
  by (auto simp: exhausted_def)

lemma quiet_simps [simp]:
  "quiet i [] = True"
  "quiet i (tr @ tr') = (quiet i tr \<and> quiet i tr')"
  by (auto simp: quiet_def)

lemma slot_of_projected:
  "isAttemptStepOf i a \<Longrightarrow> slotOf a = Some i"
  "isSuccessImageOf i a \<Longrightarrow> slotOf a = Some i"
  "isErrorImageOf i a \<Longrightarrow> slotOf a = Some i"
  "isProgressOf i a \<Longrightarrow> slotOf a = Some i"
  "isTextOf i a \<Longrightarrow> slotOf a = Some i"
  "isLastFailureOf i a \<Longrightarrow> slotOf a = Some i"
  by (cases a; simp)+

lemma projections_of_acts:
  "attempts i (acts i tr) = attempts i tr"
  "successImages i (acts i tr) = successImages i tr"
  "errorImages i (acts i tr) = errorImages i tr"
  "progressCalls i (acts i tr) = progressCalls i tr"
  "textCalls i (acts i tr) = textCalls i tr"
  "exhausted i (acts i tr) = exhausted i tr"
  by (induction tr) (auto dest: slot_of_projected)

lemma quiet_of_acts: "quiet i (acts i tr) = quiet i tr"
  by (simp add: quiet_def projections_of_acts)

text \<open>Two traces with the same actions of a slot say the same about it.\<close>

lemma same_acts:
  assumes "acts i tr' = acts i tr"
  shows "attempts i tr' = attempts i tr" "successImages i tr' = successImages i tr"
    "errorImages i tr' = errorImages i tr" "progressCalls i tr' = progressCalls i tr"
    "textCalls i tr' = textCalls i tr"
    "exhausted i tr' = exhausted i tr" "quiet i tr' = quiet i tr"
  using assms projections_of_acts[of i tr] projections_of_acts[of i tr']
    quiet_of_acts[of i tr] quiet_of_acts[of i tr']
  by simp_all

lemma no_acts:
  assumes "acts i tr = []"
  shows "attempts i tr = []" "quiet i tr" "\<not> exhausted i tr"
  using assms projections_of_acts[of i tr] quiet_of_acts[of i tr] by simp_all

subsection \<open>The plan of attempts\<close>

lemma attemptPlan_0 [simp]: "attemptPlan i 0 = []"
  by (simp add: attemptPlan_def)

lemma attemptPlan_Suc: "attemptPlan i (Suc a) = attemptPlan i a @ planStep i a"
  by (simp add: attemptPlan_def)

lemma attemptPlan_prefix: "a \<le> b \<Longrightarrow> prefix (attemptPlan i a) (attemptPlan i b)"
proof (induction b)
  case 0
  then show ?case by simp
next
  case (Suc b)
  show ?case
  proof (cases "a = Suc b")
    case True
    then show ?thesis by simp
  next
    case False
    with Suc have "prefix (attemptPlan i a) (attemptPlan i b)" by simp
    then show ?thesis by (simp add: attemptPlan_Suc prefix_prefix)
  qed
qed

lemma attemptPlan_delay_prefix:
  assumes "1 \<le> a" and "Suc a \<le> b"
  shows "prefix (attemptPlan i a @ [Delay i (1000 * 2 ^ (a - 1))]) (attemptPlan i b)"
proof -
  have "prefix (attemptPlan i a @ [Delay i (1000 * 2 ^ (a - 1))]) (attemptPlan i (Suc a))"
    using assms(1) by (simp add: attemptPlan_Suc planStep_def)
  then show ?thesis using attemptPlan_prefix[OF assms(2), of i] by (rule prefix_order.trans)
qed

lemma attemptPlan_call:
  "(if a = 0 then [] else attemptPlan i a @ [Delay i (1000 * 2 ^ (a - 1))]) @ [Call i a] =
     attemptPlan i (Suc a)"
  by (simp add: attemptPlan_Suc planStep_def)

subsection \<open>Monotonicity and framing of the slot predicates\<close>

lemma wsOk_frame:
  assumes "wsOk ab tr x" and "\<And>i. held x = Some i \<Longrightarrow> acts i tr' = acts i tr" and "ab \<longrightarrow> ab'"
  shows "wsOk ab' tr' x"
proof (cases x)
  case Outer
  then show ?thesis by simp
next
  case (Inner i a suc)
  with assms(2) have "acts i tr' = acts i tr" by simp
  note sa = same_acts[OF this]
  from assms(1,3) Inner show ?thesis by (auto simp: sa)
next
  case (AwaitCall i a)
  with assms(2) have "acts i tr' = acts i tr" by simp
  note sa = same_acts[OF this]
  from assms(1) AwaitCall show ?thesis by (simp add: sa)
next
  case (AwaitDelay i a ms)
  with assms(2) have "acts i tr' = acts i tr" by simp
  note sa = same_acts[OF this]
  from assms(1) AwaitDelay show ?thesis by (simp add: sa)
next
  case (AfterLoop i suc)
  with assms(2) have "acts i tr' = acts i tr" by simp
  note sa = same_acts[OF this]
  from assms(1,3) AfterLoop show ?thesis by (auto simp: sa)
next
  case Finished
  then show ?thesis by simp
qed

lemma resolvedOk_frame:
  assumes "resolvedOk ab tr i" and "acts i tr' = acts i tr" and "ab \<longrightarrow> ab'"
  shows "resolvedOk ab' tr' i"
  using assms(1,3) unfolding resolvedOk_def same_acts[OF assms(2)] by blast


section \<open>Properties of the pool operations\<close>

lemma setWorker_fields [simp]:
  "taskQueue (setWorker w x s) = taskQueue s" "completedCount (setWorker w x s) = completedCount s"
  "aborted (setWorker w x s) = aborted s" "trace (setWorker w x s) = trace s"
  "workers (setWorker w x s) = (workers s)[w := x]"
  by (simp_all add: setWorker_def)

lemma note_action_fields [simp]:
  "taskQueue (note_action a s) = taskQueue s" "completedCount (note_action a s) = completedCount s"
  "aborted (note_action a s) = aborted s" "trace (note_action a s) = trace s @ [a]"
  "workers (note_action a s) = workers s"
  by (simp_all add: note_action_def)

lemma emit_fields [simp]:
  "taskQueue (emit e a s) = taskQueue s" "completedCount (emit e a s) = completedCount s"
  "workers (emit e a s) = workers s"
  by (simp_all add: emit_def Let_def)

lemma emit_aborted: "aborted s \<Longrightarrow> aborted (emit e a s)"
  by (simp add: emit_def Let_def)

lemma emit_trace:
  "trace (emit e a s) = trace s @ [a] \<or> trace (emit e a s) = trace s @ [a, SignalAborted]"
  by (simp add: emit_def Let_def)

lemma emit_projections [simp]:
  "acts i (trace (emit e a s)) = acts i (trace s @ [a])"
  "attempts i (trace (emit e a s)) = attempts i (trace s @ [a])"
  "successImages i (trace (emit e a s)) = successImages i (trace s @ [a])"
  "errorImages i (trace (emit e a s)) = errorImages i (trace s @ [a])"
  "progressCalls i (trace (emit e a s)) = progressCalls i (trace s @ [a])"
  "textCalls i (trace (emit e a s)) = textCalls i (trace s @ [a])"
  "progressValues (trace (emit e a s)) = progressValues (trace s @ [a])"
  "exhausted i (trace (emit e a s)) = exhausted i (trace s @ [a])"
  by (simp_all add: emit_def Let_def)

lemma emit_quiet [simp]: "quiet i (trace (emit e a s)) = quiet i (trace s @ [a])"
  by (simp add: quiet_def)

lemma emitImage_fields [simp]:
  "taskQueue (emitImage e i d m st s) = taskQueue s"
  "completedCount (emitImage e i d m st s) = completedCount s"
  "workers (emitImage e i d m st s) = workers s"
  by (simp_all add: emitImage_def)

lemma emitImage_aborted: "aborted s \<Longrightarrow> aborted (emitImage e i d m st s)"
  by (simp add: emitImage_def emit_aborted)

subsection \<open>The abort marker\<close>

lemma afterAbort_append:
  "afterAbort (tr @ tr') =
     (if SignalAborted \<in> set tr then afterAbort tr @ tr' else afterAbort tr')"
  by (induction tr) (auto simp: afterAbort_def)

lemma afterAbort_simps [simp]:
  "afterAbort [] = []"
  "afterAbort (a # tr) = (if a = SignalAborted then a # tr else afterAbort tr)"
  by (simp_all add: afterAbort_def)

lemma invAbort_emit:
  assumes "invAbort s" and "aborted s \<longrightarrow> isContentCallback a" and "a \<noteq> SignalAborted"
  shows "invAbort (emit e a s)"
  using assms by (auto simp: invAbort_def emit_def Let_def afterAbort_append)

lemma invAbort_note:
  assumes "invAbort s" and "\<not> aborted s" and "a \<noteq> SignalAborted"
  shows "invAbort (note_action a s)"
  using assms by (auto simp: invAbort_def afterAbort_append)

lemma invAbort_worker [simp]: "invAbort (setWorker w x s) = invAbort s"
  by (simp add: invAbort_def)

lemma invShape_emit:
  assumes "invShape s" and "errorImageShape a"
  shows "invShape (emit e a s)"
  using assms by (auto simp: invShape_def emit_def Let_def)

lemma invShape_note:
  assumes "invShape s" and "errorImageShape a"
  shows "invShape (note_action a s)"
  using assms by (auto simp: invShape_def)

lemma invShape_worker [simp]: "invShape (setWorker w x s) = invShape s"
  by (simp add: invShape_def)

subsection \<open>The callbacks for the content of a reply\<close>

lemma emits_fields [simp]:
  "taskQueue (emits e i es s) = taskQueue s" "completedCount (emits e i es s) = completedCount s"
  "workers (emits e i es s) = workers s"
  by (induction e i es s rule: emits.induct) simp_all

lemma emits_aborted: "aborted s \<Longrightarrow> aborted (emits e i es s)"
  by (induction e i es s rule: emits.induct) (simp_all add: emit_aborted emitImage_aborted)

lemma emits_projections [simp]:
  "attempts j (trace (emits e i es s)) = attempts j (trace s)"
  "errorImages j (trace (emits e i es s)) = errorImages j (trace s)"
  "progressCalls j (trace (emits e i es s)) = progressCalls j (trace s)"
  "progressValues (trace (emits e i es s)) = progressValues (trace s)"
  "exhausted j (trace (emits e i es s)) = exhausted j (trace s)"
  by (induction e i es s rule: emits.induct) (simp_all add: emitImage_def)

lemma emits_other_slot: "j \<noteq> i \<Longrightarrow> acts j (trace (emits e i es s)) = acts j (trace s)"
  by (induction e i es s rule: emits.induct) (simp_all add: emitImage_def)

lemma emits_successImages:
  "successImages i (trace (emits e i es s)) = [] \<longleftrightarrow>
     successImages i (trace s) = [] \<and> \<not> (\<exists>em \<in> set es. isImageEmission em)"
  by (induction e i es s rule: emits.induct) (auto simp: emitImage_def isImageEmission_def)

lemma emits_invAbort: "invAbort s \<Longrightarrow> invAbort (emits e i es s)"
  by (induction e i es s rule: emits.induct) (simp_all add: emitImage_def invAbort_emit)

lemma emits_invShape: "invShape s \<Longrightarrow> invShape (emits e i es s)"
  by (induction e i es s rule: emits.induct) (simp_all add: emitImage_def invShape_emit)


subsection \<open>Updating one worker\<close>

lemma heldCount_update:
  "w < length ws \<Longrightarrow>
     heldCount (ws[w := x]) + (if held (ws ! w) = None then 0 else 1) =
     heldCount ws + (if held x = None then 0 else 1)"
proof (induction ws arbitrary: w)
  case Nil
  then show ?case by simp
next
  case (Cons y ws)
  show ?case
  proof (cases w)
    case 0
    then show ?thesis by (simp add: heldCount_def)
  next
    case (Suc v)
    with Cons.prems have "v < length ws" by simp
    from Cons.IH[OF this] Suc show ?thesis by (simp add: heldCount_def)
  qed
qed

lemma invWorkers_update:
  assumes "invWorkers s"
    and "workers s' = (workers s)[w := x']"
    and "\<And>w' j. w' < length (workers s) \<Longrightarrow> w' \<noteq> w \<Longrightarrow> held (workers s ! w') = Some j \<Longrightarrow>
           acts j (trace s') = acts j (trace s)"
    and "aborted s \<longrightarrow> aborted s'"
    and "wsOk (aborted s') (trace s') x'"
  shows "invWorkers s'"
  unfolding invWorkers_def
proof (intro allI impI)
  fix v assume v: "v < length (workers s')"
  show "wsOk (aborted s') (trace s') (workers s' ! v)"
  proof (cases "v = w")
    case True
    with v assms(2,5) show ?thesis by simp
  next
    case False
    with v assms(2) have eq: "workers s' ! v = workers s ! v" and vl: "v < length (workers s)"
      by simp_all
    from assms(1) vl have "wsOk (aborted s) (trace s) (workers s ! v)"
      by (simp add: invWorkers_def)
    then show ?thesis unfolding eq
      using assms(3)[OF vl False] assms(4) by (rule wsOk_frame)
  qed
qed

lemma invFree_update:
  assumes "invFree e s"
    and "workers s' = (workers s)[w := x']"
    and "\<And>j. j \<noteq> i \<Longrightarrow> acts j (trace s') = acts j (trace s)"
    and "aborted s \<longrightarrow> aborted s'"
    and "w < length (workers s) \<longrightarrow> held (workers s ! w) = None \<or> held (workers s ! w) = Some i"
    and "claimedCount e s' = claimedCount e s \<or>
         (claimedCount e s' = Suc (claimedCount e s) \<and> i = claimedCount e s)"
    and "isFree s' i \<Longrightarrow>
           (if i < claimedCount e s' then resolvedOk (aborted s') (trace s') i
            else acts i (trace s') = [])"
  shows "invFree e s'"
  unfolding invFree_def
proof (intro allI impI)
  fix j assume fr: "isFree s' j"
  show "if j < claimedCount e s' then resolvedOk (aborted s') (trace s') j
        else acts j (trace s') = []"
  proof (cases "j = i")
    case True
    with fr assms(7) show ?thesis by simp
  next
    case False
    have "isFree s j"
      unfolding isFree_def
    proof (intro allI impI)
      fix v assume v: "v < length (workers s)"
      show "held (workers s ! v) \<noteq> Some j"
      proof (cases "v = w")
        case True
        with v assms(5) False show ?thesis by auto
      next
        case False
        with v assms(2) fr show ?thesis by (auto simp: isFree_def)
      qed
    qed
    with assms(1) have old: "if j < claimedCount e s then resolvedOk (aborted s) (trace s) j
        else acts j (trace s) = []"
      by (simp add: invFree_def)
    note a = assms(3)[OF False]
    show ?thesis
    proof (cases "j < claimedCount e s")
      case True
      with old have "resolvedOk (aborted s) (trace s) j" by simp
      then have "resolvedOk (aborted s') (trace s') j" using a assms(4) by (rule resolvedOk_frame)
      moreover from True assms(6) have "j < claimedCount e s'" by auto
      ultimately show ?thesis by simp
    next
      case nc: False
      with old a have "acts j (trace s') = []" by simp
      moreover from nc False assms(6) have "\<not> j < claimedCount e s'" by auto
      ultimately show ?thesis by simp
    qed
  qed
qed

lemma invHeld_update:
  assumes "invHeld e s"
    and "workers s' = (workers s)[w := x']"
    and "claimedCount e s \<le> claimedCount e s'"
    and "\<And>i. held x' = Some i \<Longrightarrow> i < claimedCount e s' \<and>
           (\<forall>v < length (workers s). v \<noteq> w \<longrightarrow> held (workers s ! v) \<noteq> Some i)"
  shows "invHeld e s'"
proof -
  have len: "length (workers s') = length (workers s)"
    by (simp add: assms(2))
  have same: "workers s' ! u = workers s ! u" if "u \<noteq> w" for u
    using that by (simp add: assms(2))
  have new: "workers s' ! w = x'" if "w < length (workers s)"
    using that by (simp add: assms(2))
  have old: "i < claimedCount e s \<and> (u' = u)"
    if "u < length (workers s)" "held (workers s ! u) = Some i"
       "u' < length (workers s)" "held (workers s ! u') = Some i" for u u' i
    using assms(1) that unfolding invHeld_def by blast
  show ?thesis
    unfolding invHeld_def len
  proof (intro allI impI conjI)
    fix v i assume v: "v < length (workers s)" and h: "held (workers s' ! v) = Some i"
    show "i < claimedCount e s'"
    proof (cases "v = w")
      case True
      with h new[OF v[unfolded True]] have "held x' = Some i" by simp
      from assms(4)[OF this] show ?thesis by simp
    next
      case False
      with h same have "held (workers s ! v) = Some i" by simp
      from old[OF v this v this] assms(3) show ?thesis by simp
    qed
  next
    fix v i u assume v: "v < length (workers s)" and h: "held (workers s' ! v) = Some i"
      and u: "u < length (workers s)" and hu: "held (workers s' ! u) = Some i"
    show "u = v"
    proof (cases "v = w")
      case vw: True
      with h new v have hx: "held x' = Some i" by simp
      show ?thesis
      proof (cases "u = w")
        case True
        with vw show ?thesis by simp
      next
        case False
        with hu same have "held (workers s ! u) = Some i" by simp
        with assms(4)[OF hx] u False show ?thesis by blast
      qed
    next
      case vw: False
      with h same have hv: "held (workers s ! v) = Some i" by simp
      show ?thesis
      proof (cases "u = w")
        case True
        with hu new u have hx: "held x' = Some i" by simp
        with assms(4)[OF hx] v vw hv show ?thesis by blast
      next
        case False
        with hu same have "held (workers s ! u) = Some i" by simp
        from old[OF v hv u this] show ?thesis by simp
      qed
    qed
  qed
qed

lemma held_elsewhere:
  assumes "invHeld e s" and "w < length (workers s)" and "held (workers s ! w) = Some i"
    and "v < length (workers s)" and "v \<noteq> w"
  shows "held (workers s ! v) \<noteq> Some i"
  using assms unfolding invHeld_def by blast

lemma other_slot_frame:
  assumes "invHeld e s" and "w < length (workers s)" and "held (workers s ! w) = Some i"
    and "\<And>j. j \<noteq> i \<Longrightarrow> acts j (trace s') = acts j (trace s)"
    and "v < length (workers s)" and "v \<noteq> w" and "held (workers s ! v) = Some j"
  shows "acts j (trace s') = acts j (trace s)"
proof -
  from held_elsewhere[OF assms(1-3) assms(5,6)] assms(7) have "j \<noteq> i" by auto
  then show ?thesis by (rule assms(4))
qed


lemma isFree_update:
  assumes "isFree s' j" and "workers s' = (workers s)[w := x']"
    and "w < length (workers s) \<longrightarrow> held (workers s ! w) \<noteq> Some j"
  shows "isFree s j"
  unfolding isFree_def
proof (intro allI impI)
  fix v assume v: "v < length (workers s)"
  show "held (workers s ! v) \<noteq> Some j"
  proof (cases "v = w")
    case True
    with v assms(3) show ?thesis by simp
  next
    case False
    with v assms(1,2) show ?thesis by (auto simp: isFree_def)
  qed
qed

lemma not_free_if_held:
  assumes "workers s' = (workers s)[w := x']" and "w < length (workers s)" and "held x' = Some i"
  shows "\<not> isFree s' i"
  using assms by (auto simp: isFree_def)

lemma claimedCount_simps [simp]:
  "claimedCount e (setWorker w x s) = claimedCount e s"
  "claimedCount e (note_action a s) = claimedCount e s"
  "claimedCount e (emit e' a s) = claimedCount e s"
  "claimedCount e (emitImage e' i d m st s) = claimedCount e s"
  "claimedCount e (emits e' i es s) = claimedCount e s"
  by (simp_all add: claimedCount_def)

lemma Finished_in_update:
  assumes "Finished \<in> set (ws[w := x])" and "x \<noteq> Finished"
  shows "Finished \<in> set ws"
  using assms set_update_subset_insert[of ws w x] by auto

subsection \<open>A worker returns\<close>

lemma inv_return:
  assumes "inv e s" and w: "w < length (workers s)"
    and rel: "held (workers s ! w) = None \<or>
              (\<exists>i. held (workers s ! w) = Some i \<and> resolvedOk (aborted s) (trace s) i)"
    and dr: "(held (workers s ! w) = None \<and> taskQueue s = []) \<or> aborted s"
  shows "inv e (setWorker w Finished s)"
proof -
  let ?s = "setWorker w Finished s"
  from assms(1) have q: "invQueue e s" and h: "invHeld e s" and ws: "invWorkers s"
    and f: "invFree e s" and p: "invProgress e s" and c: "invCount e s" and d: "invDrained s"
    and a: "invAbort s" and sh: "invShape s"
    by (simp_all add: inv_def)
  have 1: "invQueue e ?s" using q by (simp add: invQueue_def)
  have 2: "invHeld e ?s"
    using h by (rule invHeld_update[where w = w and x' = Finished]) simp_all
  have 3: "invWorkers ?s"
    using ws by (rule invWorkers_update[where w = w and x' = Finished]) simp_all
  have 4: "invFree e ?s"
  proof (cases "held (workers s ! w)")
    case None
    show ?thesis
      unfolding invFree_def
    proof (intro allI impI)
      fix j assume "isFree ?s j"
      then have "isFree s j"
        by (rule isFree_update[where w = w and x' = Finished]) (simp_all add: None)
      with f show "if j < claimedCount e ?s then resolvedOk (aborted ?s) (trace ?s) j
                   else acts j (trace ?s) = []"
        by (simp add: invFree_def)
    qed
  next
    case (Some i)
    with rel have r: "resolvedOk (aborted s) (trace s) i" by simp
    from h w Some have lt: "i < claimedCount e s" by (auto simp: invHeld_def)
    show ?thesis using f
      by (rule invFree_update[where i = i and w = w and x' = Finished])
         (simp_all add: Some r lt)
  qed
  have 5: "invProgress e ?s" using p by (simp add: invProgress_def)
  have 6: "invCount e ?s"
    using c heldCount_update[OF w, of Finished] unfolding invCount_def
    by (cases "held (workers s ! w)") (use dr rel in \<open>auto\<close>)
  have 7: "invDrained ?s" using d dr by (auto simp: invDrained_def)
  have 8: "invAbort ?s" "invShape ?s" using a sh by simp_all
  from 1 2 3 4 5 6 7 8 show ?thesis by (simp add: inv_def)
qed


lemma inv_parts:
  assumes "inv e s"
  shows "invQueue e s" "invHeld e s" "invWorkers s" "invFree e s" "invProgress e s"
    "invCount e s" "invDrained s" "invAbort s" "invShape s"
  using assms by (simp_all add: inv_def)

lemma worker_ok: "invWorkers s \<Longrightarrow> w < length (workers s) \<Longrightarrow> wsOk (aborted s) (trace s) (workers s ! w)"
  by (simp add: invWorkers_def)

lemma held_slot_claimed:
  "invHeld e s \<Longrightarrow> w < length (workers s) \<Longrightarrow> held (workers s ! w) = Some i \<Longrightarrow> i < claimedCount e s"
  by (auto simp: invHeld_def)

subsection \<open>A worker claims a slot\<close>

lemma queue_head:
  assumes "invQueue e s" and "taskQueue s \<noteq> []"
  shows "hd (taskQueue s) = claimedCount e s" and "claimedCount e s < env_batchSize e"
    and "claimedCount e (s\<lparr>taskQueue := tl (taskQueue s)\<rparr>) = Suc (claimedCount e s)"
    and "tl (taskQueue s) = [Suc (claimedCount e s) ..< env_batchSize e]"
proof -
  from assms have eq: "taskQueue s = [claimedCount e s ..< env_batchSize e]"
    and le: "length (taskQueue s) \<le> env_batchSize e"
    by (simp_all add: invQueue_def)
  from eq assms(2) show lt: "claimedCount e s < env_batchSize e"
    by (metis upt_rec)
  from eq lt show "hd (taskQueue s) = claimedCount e s"
    by (metis hd_upt)
  from assms(2) le show "claimedCount e (s\<lparr>taskQueue := tl (taskQueue s)\<rparr>) = Suc (claimedCount e s)"
    by (cases "taskQueue s") (simp_all add: claimedCount_def)
  from eq lt show "tl (taskQueue s) = [Suc (claimedCount e s) ..< env_batchSize e]"
    by (metis list.sel(3) upt_rec)
qed

lemma inv_claim:
  assumes "inv e s" and w: "w < length (workers s)" and o: "workers s ! w = Outer"
    and ne: "taskQueue s \<noteq> []" and na: "\<not> aborted s"
  shows "inv e (setWorker w (Inner (hd (taskQueue s)) 0 False) (s\<lparr>taskQueue := tl (taskQueue s)\<rparr>))"
proof -
  note i = inv_parts[OF assms(1)]
  note qh = queue_head[OF i(1) ne]
  let ?j = "claimedCount e s"
  let ?t = "s\<lparr>taskQueue := tl (taskQueue s)\<rparr>"
  let ?s = "setWorker w (Inner ?j 0 False) ?t"
  have free: "isFree s ?j"
    unfolding isFree_def
  proof (intro allI impI)
    fix v assume "v < length (workers s)"
    then show "held (workers s ! v) \<noteq> Some ?j"
      using held_slot_claimed[OF i(2), of v ?j] by auto
  qed
  with i(4) have noacts: "acts ?j (trace s) = []" by (simp add: invFree_def)
  have 1: "invQueue e ?s"
    using i(1) ne qh(3,4) by (cases "taskQueue s") (simp_all add: invQueue_def)
  have 2: "invHeld e ?s"
    using i(2)
  proof (rule invHeld_update[where w = w and x' = "Inner ?j 0 False"])
    show "workers ?s = (workers s)[w := Inner ?j 0 False]" by simp
    show "claimedCount e s \<le> claimedCount e ?s" by (simp add: qh(3))
    fix k assume "held (Inner ?j 0 False) = Some k"
    then have "k = ?j" by simp
    with free show "k < claimedCount e ?s \<and>
        (\<forall>v<length (workers s). v \<noteq> w \<longrightarrow> held (workers s ! v) \<noteq> Some k)"
      by (simp add: qh(3) isFree_def)
  qed
  have 3: "invWorkers ?s"
    using i(3)
  proof (rule invWorkers_update[where w = w and x' = "Inner ?j 0 False"])
    show "wsOk (aborted ?s) (trace ?s) (Inner ?j 0 False)"
      using no_acts[OF noacts] by simp
  qed simp_all
  have 4: "invFree e ?s"
    using i(4)
  proof (rule invFree_update[where w = w and x' = "Inner ?j 0 False" and i = ?j])
    show "claimedCount e ?s = claimedCount e s \<or>
          claimedCount e ?s = Suc (claimedCount e s) \<and> ?j = claimedCount e s"
      by (simp add: qh(3))
    assume "isFree ?s ?j"
    moreover have "\<not> isFree ?s ?j"
      by (rule not_free_if_held[where w = w and x' = "Inner ?j 0 False" and s = s])
         (simp_all add: w)
    ultimately show "if ?j < claimedCount e ?s then resolvedOk (aborted ?s) (trace ?s) ?j
        else acts ?j (trace ?s) = []" by simp
  qed (simp_all add: o)
  have 5: "invProgress e ?s" using i(5) by (simp add: invProgress_def)
  have 6: "invCount e ?s"
    using i(6) heldCount_update[OF w, of "Inner ?j 0 False"] o
    by (simp add: invCount_def qh(3))
  have 7: "invDrained ?s"
    using i(7) ne na Finished_in_update[of "workers s" w "Inner ?j 0 False"]
    by (auto simp: invDrained_def)
  have 8: "invAbort ?s" "invShape ?s"
    using i(8,9) by (simp_all add: invAbort_def invShape_def)
  from 1 2 3 4 5 6 7 8 show ?thesis by (simp add: inv_def qh(1))
qed

subsection \<open>The retry loop\<close>

lemma inv_call:
  assumes "inv e s" and w: "w < length (workers s)" and x: "workers s ! w = Inner i a False"
    and le: "a \<le> MAX_RETRIES" and na: "\<not> aborted s"
  shows "inv e (setWorker w (AwaitCall i a) (note_action (Call i a) s))"
proof -
  note iv = inv_parts[OF assms(1)]
  let ?s = "setWorker w (AwaitCall i a) (note_action (Call i a) s)"
  have hi: "held (workers s ! w) = Some i" by (simp add: x)
  have fr: "acts j (trace ?s) = acts j (trace s)" if "j \<noteq> i" for j
    using that by simp
  from worker_ok[OF iv(3) w] x na le
  have old: "attempts i (trace s) =
        (if a = 0 then [] else attemptPlan i a @ [Delay i (1000 * 2 ^ (a - 1))])"
    and qu: "quiet i (trace s)" and ne: "\<not> exhausted i (trace s)"
    by (auto simp: MAX_RETRIES_def)
  have 1: "invQueue e ?s" using iv(1) by (simp add: invQueue_def)
  have 2: "invHeld e ?s"
    using iv(2)
  proof (rule invHeld_update[where w = w and x' = "AwaitCall i a"])
    fix k assume "held (AwaitCall i a) = Some k"
    then have "k = i" by simp
    then show "k < claimedCount e ?s \<and>
        (\<forall>v<length (workers s). v \<noteq> w \<longrightarrow> held (workers s ! v) \<noteq> Some k)"
      using held_slot_claimed[OF iv(2) w hi] held_elsewhere[OF iv(2) w hi] by simp
  qed simp_all
  have 3: "invWorkers ?s"
    using iv(3)
  proof (rule invWorkers_update[where w = w and x' = "AwaitCall i a"])
    fix v j assume v: "v < length (workers s)" "v \<noteq> w" and hj: "held (workers s ! v) = Some j"
    from held_elsewhere[OF iv(2) w hi v] hj have "j \<noteq> i" by auto
    then show "acts j (trace ?s) = acts j (trace s)" by (rule fr)
  next
    have "attempts i (trace s @ [Call i a]) = attemptPlan i (Suc a)"
      using attemptPlan_call[of a i] by (simp add: old)
    then show "wsOk (aborted ?s) (trace ?s) (AwaitCall i a)"
      using le qu ne by (simp add: quiet_def)
  qed simp_all
  have 4: "invFree e ?s"
    using iv(4)
  proof (rule invFree_update[where w = w and x' = "AwaitCall i a" and i = i])
    assume "isFree ?s i"
    moreover have "\<not> isFree ?s i"
      by (rule not_free_if_held[where w = w and x' = "AwaitCall i a" and s = s])
         (simp_all add: w)
    ultimately show "if i < claimedCount e ?s then resolvedOk (aborted ?s) (trace ?s) i
        else acts i (trace ?s) = []" by simp
  qed (simp_all add: hi)
  have 5: "invProgress e ?s" using iv(5) by (simp add: invProgress_def)
  have 6: "invCount e ?s"
    using iv(6) heldCount_update[OF w, of "AwaitCall i a"] hi by (simp add: invCount_def)
  have 7: "invDrained ?s"
    using iv(7) Finished_in_update[of "workers s" w "AwaitCall i a"]
    by (auto simp: invDrained_def)
  have 8: "invAbort ?s" using invAbort_note[OF iv(8) na, of "Call i a"] by simp
  have 9: "invShape ?s" using invShape_note[OF iv(9), of "Call i a"] by simp
  from 1 2 3 4 5 6 7 8 9 show ?thesis by (simp add: inv_def)
qed

text \<open>A step of a worker that keeps its slot and leaves the trace as it is.\<close>

lemma inv_move:
  assumes "inv e s" and w: "w < length (workers s)" and hi: "held (workers s ! w) = Some i"
    and hx: "held x' = Some i" and nf: "x' \<noteq> Finished"
    and ok: "wsOk (aborted s) (trace s) x'"
  shows "inv e (setWorker w x' s)"
proof -
  note iv = inv_parts[OF assms(1)]
  let ?s = "setWorker w x' s"
  have 1: "invQueue e ?s" using iv(1) by (simp add: invQueue_def)
  have 2: "invHeld e ?s"
    using iv(2)
  proof (rule invHeld_update[where w = w and x' = x'])
    fix k assume "held x' = Some k"
    with hx have "k = i" by simp
    then show "k < claimedCount e ?s \<and>
        (\<forall>v<length (workers s). v \<noteq> w \<longrightarrow> held (workers s ! v) \<noteq> Some k)"
      using held_slot_claimed[OF iv(2) w hi] held_elsewhere[OF iv(2) w hi] by simp
  qed simp_all
  have 3: "invWorkers ?s"
    using iv(3) by (rule invWorkers_update[where w = w and x' = x']) (simp_all add: ok)
  have 4: "invFree e ?s"
    using iv(4)
  proof (rule invFree_update[where w = w and x' = x' and i = i])
    assume "isFree ?s i"
    moreover have "\<not> isFree ?s i"
      by (rule not_free_if_held[where w = w and x' = x' and s = s]) (simp_all add: w hx)
    ultimately show "if i < claimedCount e ?s then resolvedOk (aborted ?s) (trace ?s) i
        else acts i (trace ?s) = []" by simp
  qed (simp_all add: hi)
  have 5: "invProgress e ?s" using iv(5) by (simp add: invProgress_def)
  have 6: "invCount e ?s"
    using iv(6) heldCount_update[OF w, of x'] hi hx by (simp add: invCount_def)
  have 7: "invDrained ?s"
    using iv(7) Finished_in_update[of "workers s" w x', OF _ nf]
    by (auto simp: invDrained_def)
  have 8: "invAbort ?s" "invShape ?s" using iv(8,9) by simp_all
  from 1 2 3 4 5 6 7 8 show ?thesis by (simp add: inv_def)
qed

lemma inv_leave_loop:
  assumes "inv e s" and w: "w < length (workers s)" and x: "workers s ! w = Inner i a suc"
    and ex: "\<not> (a \<le> MAX_RETRIES \<and> \<not> suc)"
  shows "inv e (setWorker w (AfterLoop i suc) s)"
proof (rule inv_move[OF assms(1) w, where i = i])
  from worker_ok[OF inv_parts(3)[OF assms(1)] w] x
  have ok: "wsOk (aborted s) (trace s) (Inner i a suc)" by simp
  show "wsOk (aborted s) (trace s) (AfterLoop i suc)"
  proof (cases suc)
    case True
    with ok have "a \<le> MAX_RETRIES" and at: "attempts i (trace s) = attemptPlan i (Suc a)"
      and r: "successImages i (trace s) \<noteq> []" "errorImages i (trace s) = []"
        "progressCalls i (trace s) = []" "\<not> exhausted i (trace s)"
      by simp_all
    then have "prefix (attempts i (trace s)) (fullPlan i)"
      unfolding at fullPlan_def by (intro attemptPlan_prefix) simp
    with True r show ?thesis by simp
  next
    case False
    with ex have big: "\<not> a \<le> MAX_RETRIES" by simp
    with ok False have a: "a = MAX_RETRIES + 1" by simp
    from ok False big show ?thesis by (auto simp: quiet_def fullPlan_def a)
  qed
qed (simp_all add: x)

lemma inv_timer:
  assumes "inv e s" and w: "w < length (workers s)" and x: "workers s ! w = AwaitDelay i a ms"
  shows "inv e (setWorker w (Inner i a False) s)"
proof (rule inv_move[OF assms(1) w, where i = i])
  from worker_ok[OF inv_parts(3)[OF assms(1)] w] x
  have ok: "wsOk (aborted s) (trace s) (AwaitDelay i a ms)" by simp
  then have a: "1 \<le> a" "a \<le> MAX_RETRIES" and ms: "ms = 1000 * 2 ^ (a - 1)"
    and at: "attempts i (trace s) = attemptPlan i a @ [Delay i ms]"
    and r: "quiet i (trace s)" "\<not> exhausted i (trace s)"
    by simp_all
  have "prefix (attempts i (trace s)) (fullPlan i)"
    unfolding at ms fullPlan_def using a by (intro attemptPlan_delay_prefix) simp_all
  with a ms at r show "wsOk (aborted s) (trace s) (Inner i a False)" by simp
qed (simp_all add: x)

lemma inv_abandon:
  assumes "inv e s" and w: "w < length (workers s)" and x: "workers s ! w = Inner i a False"
    and ab: "aborted s"
  shows "inv e (setWorker w Finished s)"
proof (rule inv_return[OF assms(1) w])
  from worker_ok[OF inv_parts(3)[OF assms(1)] w] x
  have "prefix (attempts i (trace s)) (fullPlan i)" "quiet i (trace s)" by simp_all
  with ab have "resolvedOk (aborted s) (trace s) i"
    by (simp add: resolvedOk_def quiet_def)
  then show "held (workers s ! w) = None \<or>
      (\<exists>i. held (workers s ! w) = Some i \<and> resolvedOk (aborted s) (trace s) i)"
    by (simp add: x)
qed (simp add: ab)


text \<open>
  A worker keeps its slot while the trace grows by actions of that slot.
\<close>

lemma inv_keep:
  assumes "inv e s" and w: "w < length (workers s)" and hi: "held (workers s ! w) = Some i"
    and hx: "held x' = Some i" and nf: "x' \<noteq> Finished"
    and fields: "taskQueue t = taskQueue s" "completedCount t = completedCount s"
      "workers t = workers s"
    and fr: "\<And>j. j \<noteq> i \<Longrightarrow> acts j (trace t) = acts j (trace s)"
    and ab: "aborted s \<longrightarrow> aborted t"
    and pv: "progressValues (trace t) = progressValues (trace s)"
    and ia: "invAbort t" and ish: "invShape t"
    and ok: "wsOk (aborted t) (trace t) x'"
  shows "inv e (setWorker w x' t)"
proof -
  note iv = inv_parts[OF assms(1)]
  let ?s = "setWorker w x' t"
  have cc: "claimedCount e t = claimedCount e s" by (simp add: claimedCount_def fields)
  have 1: "invQueue e ?s" using iv(1) by (simp add: invQueue_def fields cc)
  have 2: "invHeld e ?s"
    using iv(2)
  proof (rule invHeld_update[where w = w and x' = x'])
    fix k assume "held x' = Some k"
    with hx have "k = i" by simp
    then show "k < claimedCount e ?s \<and>
        (\<forall>v<length (workers s). v \<noteq> w \<longrightarrow> held (workers s ! v) \<noteq> Some k)"
      using held_slot_claimed[OF iv(2) w hi] held_elsewhere[OF iv(2) w hi] by (simp add: cc)
  qed (simp_all add: fields cc)
  have 3: "invWorkers ?s"
    using iv(3)
  proof (rule invWorkers_update[where w = w and x' = x'])
    fix v j assume v: "v < length (workers s)" "v \<noteq> w" and hj: "held (workers s ! v) = Some j"
    from held_elsewhere[OF iv(2) w hi v] hj have "j \<noteq> i" by auto
    then show "acts j (trace ?s) = acts j (trace s)" by (simp add: fr)
  qed (simp_all add: fields ab ok)
  have 4: "invFree e ?s"
    using iv(4)
  proof (rule invFree_update[where w = w and x' = x' and i = i])
    assume "isFree ?s i"
    moreover have "\<not> isFree ?s i"
      by (rule not_free_if_held[where w = w and x' = x' and s = s]) (simp_all add: w hx fields)
    ultimately show "if i < claimedCount e ?s then resolvedOk (aborted ?s) (trace ?s) i
        else acts i (trace ?s) = []" by simp
  qed (simp_all add: hi fields fr ab cc)
  have 5: "invProgress e ?s" using iv(5) by (simp add: invProgress_def pv fields)
  have 6: "invCount e ?s"
    using iv(6) heldCount_update[OF w, of x'] hi hx ab by (auto simp: invCount_def fields cc)
  have 7: "invDrained ?s"
    using iv(7) Finished_in_update[of "workers s" w x', OF _ nf] ab
    by (auto simp: invDrained_def fields)
  have 8: "invAbort ?s" "invShape ?s" using ia ish by simp_all
  from 1 2 3 4 5 6 7 8 show ?thesis by (simp add: inv_def)
qed

text \<open>A worker lets go of its slot and returns to the head of the outer loop.\<close>

lemma inv_release:
  assumes "inv e s" and w: "w < length (workers s)" and hi: "held (workers s ! w) = Some i"
    and fields: "taskQueue t = taskQueue s" "workers t = workers s"
    and fr: "\<And>j. j \<noteq> i \<Longrightarrow> acts j (trace t) = acts j (trace s)"
    and ab: "aborted s \<longrightarrow> aborted t"
    and ip: "invProgress e t" and ia: "invAbort t" and ish: "invShape t"
    and cnt: "\<not> aborted t \<longrightarrow> completedCount t = Suc (completedCount s)"
    and ok: "resolvedOk (aborted t) (trace t) i"
  shows "inv e (setWorker w Outer t)"
proof -
  note iv = inv_parts[OF assms(1)]
  let ?s = "setWorker w Outer t"
  have cc: "claimedCount e t = claimedCount e s" by (simp add: claimedCount_def fields)
  have 1: "invQueue e ?s" using iv(1) by (simp add: invQueue_def fields cc)
  have 2: "invHeld e ?s"
    using iv(2) by (rule invHeld_update[where w = w and x' = Outer]) (simp_all add: fields cc)
  have 3: "invWorkers ?s"
    using iv(3)
  proof (rule invWorkers_update[where w = w and x' = Outer])
    fix v j assume v: "v < length (workers s)" "v \<noteq> w" and hj: "held (workers s ! v) = Some j"
    from held_elsewhere[OF iv(2) w hi v] hj have "j \<noteq> i" by auto
    then show "acts j (trace ?s) = acts j (trace s)" by (simp add: fr)
  qed (simp_all add: fields ab)
  have 4: "invFree e ?s"
    using iv(4)
  proof (rule invFree_update[where w = w and x' = Outer and i = i])
    show "if i < claimedCount e ?s then resolvedOk (aborted ?s) (trace ?s) i
        else acts i (trace ?s) = []"
      using held_slot_claimed[OF iv(2) w hi] ok by (simp add: cc)
  qed (simp_all add: hi fields fr ab cc)
  have 5: "invProgress e ?s" using ip by (simp add: invProgress_def)
  have 6: "invCount e ?s"
    using iv(6) heldCount_update[OF w, of Outer] hi ab cnt by (auto simp: invCount_def fields cc)
  have 7: "invDrained ?s"
    using iv(7) Finished_in_update[of "workers s" w Outer] ab
    by (auto simp: invDrained_def fields)
  have 8: "invAbort ?s" "invShape ?s" using ia ish by simp_all
  from 1 2 3 4 5 6 7 8 show ?thesis by (simp add: inv_def)
qed

subsection \<open>The code after the retry loop\<close>

lemma reportOutcome_fields [simp]:
  "taskQueue (reportOutcome e i suc s) = taskQueue s"
  "workers (reportOutcome e i suc s) = workers s"
  by (simp_all add: reportOutcome_def Let_def)

lemma reportOutcome_aborted: "aborted s \<Longrightarrow> aborted (reportOutcome e i suc s)"
  by (simp add: reportOutcome_def Let_def)

lemma reportOutcome_silent: "aborted s \<Longrightarrow> reportOutcome e i suc s = s"
  by (simp add: reportOutcome_def Let_def)

lemma reportOutcome_other_slot:
  "j \<noteq> i \<Longrightarrow> acts j (trace (reportOutcome e i suc s)) = acts j (trace s)"
  by (simp add: reportOutcome_def Let_def emitImage_def)

lemma reportOutcome_count:
  "\<not> aborted (reportOutcome e i suc s) \<Longrightarrow>
     completedCount (reportOutcome e i suc s) = Suc (completedCount s)"
  by (auto simp: reportOutcome_def Let_def emitImage_def dest: emit_aborted split: if_splits)

lemma reportOutcome_progress:
  assumes "invProgress e s"
  shows "invProgress e (reportOutcome e i suc s)"
  using assms by (simp add: reportOutcome_def Let_def emitImage_def invProgress_def)

lemma reportOutcome_invAbort:
  assumes "invAbort s"
  shows "invAbort (reportOutcome e i suc s)"
proof -
  let ?s1 = "if \<not> suc \<and> \<not> aborted s then emitImage e i [] [] Error s else s"
  have 1: "invAbort ?s1" using assms by (simp add: emitImage_def invAbort_emit)
  have "invAbort (?s1\<lparr>completedCount := completedCount ?s1 + 1\<rparr>)"
    using 1 by (simp add: invAbort_def)
  then have "\<not> aborted ?s1 \<Longrightarrow>
      invAbort (emit e (OnProgress i (completedCount ?s1 + 1) (env_batchSize e))
        (?s1\<lparr>completedCount := completedCount ?s1 + 1\<rparr>))"
    by (rule invAbort_emit) simp_all
  with 1 show ?thesis by (simp add: reportOutcome_def Let_def)
qed

lemma reportOutcome_invShape:
  assumes "invShape s"
  shows "invShape (reportOutcome e i suc s)"
proof -
  let ?s1 = "if \<not> suc \<and> \<not> aborted s then emitImage e i [] [] Error s else s"
  have 1: "invShape ?s1" using assms by (simp add: emitImage_def invShape_emit)
  have "invShape (?s1\<lparr>completedCount := completedCount ?s1 + 1\<rparr>)"
    using 1 by (simp add: invShape_def)
  then have "invShape (emit e (OnProgress i (completedCount ?s1 + 1) (env_batchSize e))
        (?s1\<lparr>completedCount := completedCount ?s1 + 1\<rparr>))"
    by (rule invShape_emit) simp
  with 1 show ?thesis by (simp add: reportOutcome_def Let_def)
qed

lemma reportOutcome_resolved:
  assumes "wsOk (aborted s) (trace s) (AfterLoop i suc)"
  shows "resolvedOk (aborted (reportOutcome e i suc s)) (trace (reportOutcome e i suc s)) i"
proof (cases "aborted s")
  case True
  with assms show ?thesis
    by (auto simp: reportOutcome_silent resolvedOk_def split: if_splits)
next
  case na: False
  let ?s1 = "if \<not> suc \<and> \<not> aborted s then emitImage e i [] [] Error s else s"
  from assms na have pre: "prefix (attempts i (trace s)) (fullPlan i)"
    and e0: "errorImages i (trace s) = []" and p0: "progressCalls i (trace s) = []"
    and sc: "suc \<longrightarrow> successImages i (trace s) \<noteq> [] \<and> \<not> exhausted i (trace s)"
    and fl: "\<not> suc \<longrightarrow> attempts i (trace s) = fullPlan i"
    by (auto split: if_splits)
  have a1: "attempts i (trace ?s1) = attempts i (trace s)"
    and s1: "successImages i (trace ?s1) = successImages i (trace s)"
    and x1: "exhausted i (trace ?s1) = exhausted i (trace s)"
    and p1: "progressCalls i (trace ?s1) = []"
    and e1: "length (errorImages i (trace ?s1)) = (if suc then 0 else 1)"
    using na e0 p0 by (simp_all add: emitImage_def)
  show ?thesis
  proof (cases "aborted ?s1")
    case True
    then have "reportOutcome e i suc s = ?s1" by (simp add: reportOutcome_def Let_def)
    with True pre sc fl a1 s1 x1 p1 e1 show ?thesis
      by (auto simp: resolvedOk_def split: if_splits)
  next
    case False
    let ?s2 = "emit e (OnProgress i (completedCount ?s1 + 1) (env_batchSize e))
        (?s1\<lparr>completedCount := completedCount ?s1 + 1\<rparr>)"
    from False have r: "reportOutcome e i suc s = ?s2" by (simp add: reportOutcome_def Let_def)
    have "attempts i (trace ?s2) = attempts i (trace s)"
      "successImages i (trace ?s2) = successImages i (trace s)"
      "exhausted i (trace ?s2) = exhausted i (trace s)"
      "length (progressCalls i (trace ?s2)) = 1"
      "length (errorImages i (trace ?s2)) = (if suc then 0 else 1)"
      using a1 s1 x1 p1 e1 by simp_all
    with pre sc fl show ?thesis
      unfolding r resolvedOk_def by (auto split: if_splits)
  qed
qed

lemma inv_report:
  assumes "inv e s" and w: "w < length (workers s)" and x: "workers s ! w = AfterLoop i suc"
  shows "inv e (setWorker w Outer (reportOutcome e i suc s))"
proof (rule inv_release[OF assms(1) w, where i = i])
  note iv = inv_parts[OF assms(1)]
  from worker_ok[OF iv(3) w] x
  show "resolvedOk (aborted (reportOutcome e i suc s)) (trace (reportOutcome e i suc s)) i"
    by (simp add: reportOutcome_resolved)
  show "invProgress e (reportOutcome e i suc s)" using iv(5) by (rule reportOutcome_progress)
  show "invAbort (reportOutcome e i suc s)" using iv(8) by (rule reportOutcome_invAbort)
  show "invShape (reportOutcome e i suc s)" using iv(9) by (rule reportOutcome_invShape)
qed (simp_all add: x reportOutcome_other_slot reportOutcome_aborted reportOutcome_count)



subsection \<open>A provider call settles\<close>

lemma catchBlock_cases:
  "catchBlock e w i a err s =
     (if aborted s then setWorker w (Inner i (Suc a) False) s
      else if Suc a \<le> MAX_RETRIES then
        setWorker w (AwaitDelay i (Suc a) (1000 * 2 ^ a))
          (note_action (Delay i (1000 * 2 ^ a))
             (note_action (LogError i (Suc w) (Suc a) (env_logged e err)) s))
      else setWorker w (Inner i (Suc a) False)
             (note_action (LogError i (Suc w) (Suc a) (env_logged e err)) s))"
  by (simp add: catchBlock_def Let_def)

lemma inv_catch:
  assumes "inv e s" and w: "w < length (workers s)" and hi: "held (workers s ! w) = Some i"
    and fields: "taskQueue t = taskQueue s" "completedCount t = completedCount s"
      "workers t = workers s"
    and fr: "\<And>j. j \<noteq> i \<Longrightarrow> acts j (trace t) = acts j (trace s)"
    and ab: "aborted s \<longrightarrow> aborted t"
    and pv: "progressValues (trace t) = progressValues (trace s)"
    and ia: "invAbort t" and ish: "invShape t"
    and ok: "wsOk (aborted t) (trace t) (AwaitCall i a)"
  shows "inv e (catchBlock e w i a err t)"
proof -
  from ok have a: "a \<le> MAX_RETRIES" and at: "attempts i (trace t) = attemptPlan i (Suc a)"
    and qu: "quiet i (trace t)" and nx: "\<not> exhausted i (trace t)"
    by simp_all
  have pre: "prefix (attemptPlan i (Suc a)) (fullPlan i)"
    unfolding fullPlan_def using a by (intro attemptPlan_prefix) simp
  let ?log = "LogError i (Suc w) (Suc a) (env_logged e err)"
  show ?thesis
  proof (cases "aborted t")
    case True
    have "inv e (setWorker w (Inner i (Suc a) False) t)"
      using assms(1) w hi
    proof (rule inv_keep[where i = i])
      show "wsOk (aborted t) (trace t) (Inner i (Suc a) False)"
        using True a at qu nx pre by simp
    qed (simp_all add: fields fr ab pv ia ish)
    with True show ?thesis by (simp add: catchBlock_cases)
  next
    case na: False
    let ?t1 = "note_action ?log t"
    have ia1: "invAbort ?t1" using ia na by (rule invAbort_note) simp
    have ish1: "invShape ?t1" using ish by (rule invShape_note) simp
    show ?thesis
    proof (cases "Suc a \<le> MAX_RETRIES")
      case True
      let ?ms = "1000 * 2 ^ a"
      let ?t2 = "note_action (Delay i ?ms) ?t1"
      have "inv e (setWorker w (AwaitDelay i (Suc a) ?ms) ?t2)"
        using assms(1) w hi
      proof (rule inv_keep[where i = i])
        show "invAbort ?t2" using ia1 by (rule invAbort_note) (simp_all add: na)
        show "invShape ?t2" using ish1 by (rule invShape_note) simp
        show "wsOk (aborted ?t2) (trace ?t2) (AwaitDelay i (Suc a) ?ms)"
          using True at qu nx by (simp add: quiet_def)
      qed (simp_all add: fields fr ab pv)
      with na True show ?thesis by (simp add: catchBlock_cases)
    next
      case False
      with a have last: "Suc a = MAX_RETRIES + 1" by simp
      have "inv e (setWorker w (Inner i (Suc a) False) ?t1)"
        using assms(1) w hi
      proof (rule inv_keep[where i = i])
        show "wsOk (aborted ?t1) (trace ?t1) (Inner i (Suc a) False)"
          using False a at qu pre last by (simp add: quiet_def)
      qed (simp_all add: fields fr ab pv ia1 ish1)
      with na False show ?thesis by (simp add: catchBlock_cases)
    qed
  qed
qed

lemma inv_reply:
  assumes "inv e s" and w: "w < length (workers s)" and x: "workers s ! w = AwaitCall i a"
    and h: "handlerOk (env_handle e)"
  shows "inv e (onReply e w i a r s)"
proof -
  note iv = inv_parts[OF assms(1)]
  let ?t = "emits e i (fst (env_handle e r)) s"
  have hi: "held (workers s ! w) = Some i" by (simp add: x)
  from worker_ok[OF iv(3) w] x
  have a: "a \<le> MAX_RETRIES" and at: "attempts i (trace s) = attemptPlan i (Suc a)"
    and qu: "quiet i (trace s)" and nx: "\<not> exhausted i (trace s)"
    by simp_all
  have ia: "invAbort ?t" using iv(8) by (rule emits_invAbort)
  have ish: "invShape ?t" using iv(9) by (rule emits_invShape)
  show ?thesis
  proof (cases "snd (env_handle e r)")
    case None
    from h have "snd (env_handle e r) = None \<longrightarrow>
        (\<exists>em \<in> set (fst (env_handle e r)). isImageEmission em)"
      unfolding handlerOk_def by (rule spec)
    with None have "\<exists>em \<in> set (fst (env_handle e r)). isImageEmission em"
      by simp
    then have si: "successImages i (trace ?t) \<noteq> []"
      by (simp add: emits_successImages)
    have "inv e (setWorker w (Inner i a True) ?t)"
      using assms(1) w hi
    proof (rule inv_keep[where i = i])
      show "wsOk (aborted ?t) (trace ?t) (Inner i a True)"
        using a at qu nx si by (simp add: quiet_def)
    qed (simp_all add: emits_other_slot emits_aborted ia ish)
    with None show ?thesis by (simp add: onReply_def Let_def)
  next
    case (Some err)
    have "inv e (catchBlock e w i a err ?t)"
      using assms(1) w hi
    proof (rule inv_catch[where i = i])
      show "wsOk (aborted ?t) (trace ?t) (AwaitCall i a)"
        using a at qu nx by (simp add: quiet_def)
    qed (simp_all add: emits_other_slot emits_aborted ia ish)
    with Some show ?thesis by (simp add: onReply_def Let_def)
  qed
qed

subsection \<open>The signal is aborted\<close>

lemma claimedCount_abort [simp]:
  "claimedCount e (s\<lparr>aborted := b, trace := tr\<rparr>) = claimedCount e s"
  by (simp add: claimedCount_def)

lemma inv_abort:
  assumes "inv e s" and na: "\<not> aborted s"
  shows "inv e (s\<lparr>aborted := True, trace := trace s @ [SignalAborted]\<rparr>)"
proof -
  note iv = inv_parts[OF assms(1)]
  let ?s = "s\<lparr>aborted := True, trace := trace s @ [SignalAborted]\<rparr>"
  have "invQueue e ?s = invQueue e s" by (simp add: invQueue_def)
  with iv(1) have 1: "invQueue e ?s" by simp
  have "invHeld e ?s = invHeld e s" by (simp add: invHeld_def)
  with iv(2) have 2: "invHeld e ?s" by simp
  have 3: "invWorkers ?s"
    unfolding invWorkers_def
  proof (intro allI impI)
    fix v assume "v < length (workers ?s)"
    then have v: "v < length (workers s)" by simp
    have old: "wsOk (aborted s) (trace s) (workers s ! v)" using v by (rule worker_ok[OF iv(3)])
    have "acts k (trace s @ [SignalAborted]) = acts k (trace s)" for k by simp
    with wsOk_frame[OF old, of "trace s @ [SignalAborted]" True]
    have "wsOk True (trace s @ [SignalAborted]) (workers s ! v)" by blast
    then show "wsOk (aborted ?s) (trace ?s) (workers ?s ! v)" by simp
  qed
  have 4: "invFree e ?s"
    unfolding invFree_def
  proof (intro allI impI)
    fix j assume "isFree ?s j"
    moreover have "isFree ?s j = isFree s j" by (simp add: isFree_def)
    ultimately have "isFree s j" by simp
    with iv(4) have old: "if j < claimedCount e s then resolvedOk (aborted s) (trace s) j
        else acts j (trace s) = []" unfolding invFree_def by blast
    show "if j < claimedCount e ?s then resolvedOk (aborted ?s) (trace ?s) j
        else acts j (trace ?s) = []"
    proof (cases "j < claimedCount e s")
      case True
      with old have r: "resolvedOk (aborted s) (trace s) j" by simp
      have "acts j (trace s @ [SignalAborted]) = acts j (trace s)" by simp
      with resolvedOk_frame[OF r, of "trace s @ [SignalAborted]" True]
      have "resolvedOk True (trace s @ [SignalAborted]) j" by blast
      with True show ?thesis by simp
    next
      case False
      with old show ?thesis by simp
    qed
  qed
  have "invProgress e ?s = invProgress e s" by (simp add: invProgress_def)
  with iv(5) have 5: "invProgress e ?s" by simp
  have 6: "invCount e ?s" "invDrained ?s" by (simp_all add: invCount_def invDrained_def)
  from iv(8) na have nm: "SignalAborted \<notin> set (trace s)" by (simp add: invAbort_def)
  have 7: "invAbort ?s" using nm by (simp add: invAbort_def afterAbort_append)
  have "invShape ?s = invShape s" by (simp add: invShape_def)
  with iv(9) have 8: "invShape ?s" by simp
  from 1 2 3 4 5 6 7 8 show ?thesis by (simp add: inv_def)
qed



subsection \<open>Running a worker\<close>

lemma inv_micro:
  assumes "inv e s" and w: "w < length (workers s)" and r: "running (workers s ! w)"
  shows "inv e (micro e w s)"
proof (cases "workers s ! w")
  case Outer
  show ?thesis
  proof (cases "taskQueue s = [] \<or> aborted s")
    case True
    have "inv e (setWorker w Finished s)"
      using assms(1) w by (rule inv_return) (use True Outer in auto)
    with True Outer show ?thesis by (auto simp: micro_def)
  next
    case False
    with inv_claim[OF assms(1) w Outer] Outer show ?thesis by (simp add: micro_def)
  qed
next
  case (Inner i a suc)
  show ?thesis
  proof (cases "a \<le> MAX_RETRIES \<and> \<not> suc")
    case True
    then have x: "workers s ! w = Inner i a False" using Inner by simp
    show ?thesis
    proof (cases "aborted s")
      case ab: True
      with inv_abandon[OF assms(1) w x] True Inner show ?thesis by (simp add: micro_def)
    next
      case False
      with inv_call[OF assms(1) w x] True Inner show ?thesis by (simp add: micro_def)
    qed
  next
    case False
    with inv_leave_loop[OF assms(1) w Inner False] Inner show ?thesis by (auto simp: micro_def)
  qed
next
  case (AfterLoop i suc)
  with inv_report[OF assms(1) w AfterLoop] show ?thesis by (simp add: micro_def)
qed (use r in \<open>simp_all add: running_def\<close>)

lemma micro_length [simp]: "length (workers (micro e w s)) = length (workers s)"
  by (simp add: micro_def split: wstate.splits)

lemma micro_others: "v \<noteq> w \<Longrightarrow> workers (micro e w s) ! v = workers s ! v"
  by (simp add: micro_def split: wstate.splits)

lemma runWorker_stop:
  "\<not> (w < length (workers s) \<and> running (workers s ! w)) \<Longrightarrow> runWorker e w s = s"
  by (subst runWorker.simps) auto

lemma runWorker_go:
  "w < length (workers s) \<Longrightarrow> running (workers s ! w) \<Longrightarrow>
     runWorker e w s = runWorker e w (micro e w s)"
  by (subst runWorker.simps) auto


lemma runWorker_inv: "inv e s \<Longrightarrow> inv e (runWorker e w s)"
proof (induction e w s rule: runWorker.induct)
  case (1 e w s)
  show ?case
  proof (cases "w < length (workers s) \<and> running (workers s ! w)")
    case True
    then have "inv e (micro e w s)" using "1.prems" by (simp add: inv_micro)
    with "1.IH"[OF True] have "inv e (runWorker e w (micro e w s))" .
    with True show ?thesis by (simp add: runWorker_go)
  next
    case False
    then have "runWorker e w s = s" by (rule runWorker_stop)
    with "1.prems" show ?thesis by simp
  qed
qed

lemma runWorker_length [simp]: "length (workers (runWorker e w s)) = length (workers s)"
proof (induction e w s rule: runWorker.induct)
  case (1 e w s)
  show ?case
  proof (cases "w < length (workers s) \<and> running (workers s ! w)")
    case True
    with "1.IH"[OF True] show ?thesis by (simp add: runWorker_go)
  next
    case False
    then show ?thesis by (simp add: runWorker_stop)
  qed
qed

lemma runWorker_others: "v \<noteq> w \<Longrightarrow> workers (runWorker e w s) ! v = workers s ! v"
proof (induction e w s rule: runWorker.induct)
  case (1 e w s)
  show ?case
  proof (cases "w < length (workers s) \<and> running (workers s ! w)")
    case True
    with "1.IH"[OF True "1.prems"] "1.prems" show ?thesis
      by (simp add: runWorker_go micro_others)
  next
    case False
    then show ?thesis by (simp add: runWorker_stop)
  qed
qed

lemma runWorker_suspended:
  "w < length (workers s) \<Longrightarrow> \<not> running (workers (runWorker e w s) ! w)"
proof (induction e w s rule: runWorker.induct)
  case (1 e w s)
  show ?case
  proof (cases "running (workers s ! w)")
    case True
    with "1.prems" have c: "w < length (workers s) \<and> running (workers s ! w)" by simp
    from "1.prems" have "w < length (workers (micro e w s))" by simp
    from "1.IH"[OF c this] c show ?thesis by (simp add: runWorker_go)
  next
    case False
    then show ?thesis by (simp add: runWorker_stop)
  qed
qed



subsection \<open>Events and runs\<close>

lemma spawn_initial:
  "spawn e b = fold (runWorker e) [0..<min MAX_CONCURRENT_REQUESTS (env_batchSize e)] (initialPool e b)"
  by (simp add: spawn_def initialPool_def Let_def)

lemma heldCount_replicate [simp]: "heldCount (replicate n Outer) = 0"
  by (induction n) (simp_all add: heldCount_def)

lemma inv_initial: "inv e (initialPool e b)"
proof -
  let ?s = "initialPool e b"
  have c: "claimedCount e ?s = 0" by (simp add: claimedCount_def initialPool_def)
  have w: "workers ?s ! v = Outer" if "v < length (workers ?s)" for v
    using that by (simp add: initialPool_def)
  have 1: "invQueue e ?s" unfolding invQueue_def c by (simp add: initialPool_def)
  have 2: "invHeld e ?s" unfolding invHeld_def by (simp add: w)
  have 3: "invWorkers ?s" unfolding invWorkers_def by (simp add: w)
  have 4: "invFree e ?s" unfolding invFree_def c by (simp add: initialPool_def)
  have 5: "invProgress e ?s" by (simp add: invProgress_def initialPool_def)
  have 6: "invCount e ?s" unfolding invCount_def c by (simp add: initialPool_def)
  have 7: "invDrained ?s" by (simp add: invDrained_def initialPool_def)
  have 8: "invAbort ?s" by (simp add: invAbort_def initialPool_def)
  have 9: "invShape ?s" by (simp add: invShape_def initialPool_def)
  from 1 2 3 4 5 6 7 8 9 show ?thesis by (simp add: inv_def)
qed

lemma fold_runWorker_inv: "inv e s \<Longrightarrow> inv e (fold (runWorker e) ws s)"
  by (induction ws arbitrary: s) (simp_all add: runWorker_inv)

lemma inv_spawn: "inv e (spawn e b)"
  unfolding spawn_initial by (rule fold_runWorker_inv) (rule inv_initial)

lemma fold_runWorker_length [simp]:
  "length (workers (fold (runWorker e) ws s)) = length (workers s)"
  by (induction ws arbitrary: s) simp_all

lemma fold_runWorker_suspended:
  "m \<le> length (workers s) \<Longrightarrow> v < m \<Longrightarrow>
     \<not> running (workers (fold (runWorker e) [0..<m] s) ! v)"
proof (induction m arbitrary: v)
  case 0
  then show ?case by simp
next
  case (Suc m)
  let ?t = "fold (runWorker e) [0..<m] s"
  have f: "fold (runWorker e) [0..<Suc m] s = runWorker e m ?t" by simp
  show ?case
  proof (cases "v = m")
    case True
    from Suc.prems have "m < length (workers ?t)" by simp
    then show ?thesis unfolding f True by (rule runWorker_suspended)
  next
    case False
    with Suc.prems have "v < m" "m \<le> length (workers s)" by simp_all
    with Suc.IH have "\<not> running (workers ?t ! v)" by simp
    with False show ?thesis unfolding f by (simp add: runWorker_others)
  qed
qed

lemma suspended_spawn: "suspended (spawn e b)"
  unfolding suspended_def spawn_initial
  using fold_runWorker_suspended[of "min MAX_CONCURRENT_REQUESTS (env_batchSize e)" "initialPool e b" _ e]
  by (simp add: initialPool_def)

lemma catchBlock_workers:
  "\<exists>x. workers (catchBlock e w i a err s) = (workers s)[w := x]"
  by (simp add: catchBlock_cases) blast

lemma onReply_workers: "\<exists>x. workers (onReply e w i a r s) = (workers s)[w := x]"
proof (cases "snd (env_handle e r)")
  case None
  then have "workers (onReply e w i a r s) = (workers s)[w := Inner i a True]"
    by (simp add: onReply_def Let_def)
  then show ?thesis ..
next
  case (Some err)
  with catchBlock_workers[of e w i a err "emits e i (fst (env_handle e r)) s"]
  show ?thesis by (simp add: onReply_def Let_def)
qed

lemma suspended_resume:
  assumes "suspended s" and "w < length (workers s)" and "workers t = (workers s)[w := x]"
  shows "suspended (runWorker e w t)"
  unfolding suspended_def
proof (intro allI impI)
  fix v assume "v < length (workers (runWorker e w t))"
  with assms(3) have v: "v < length (workers s)" by simp
  show "\<not> running (workers (runWorker e w t) ! v)"
  proof (cases "v = w")
    case True
    from assms(2,3) have "w < length (workers t)" by simp
    then show ?thesis unfolding True by (rule runWorker_suspended)
  next
    case False
    then have "workers (runWorker e w t) ! v = workers s ! v"
      by (simp add: runWorker_others assms(3))
    with assms(1) v show ?thesis by (simp add: suspended_def)
  qed
qed

lemma step_cases:
  assumes "step e ev s = Some s'"
  obtains (abort) "ev = Abort" "aborted s" "s' = s"
    | (fire) "ev = Abort" "\<not> aborted s" "s' = s\<lparr>aborted := True, trace := trace s @ [SignalAborted]\<rparr>"
    | (reply) w r i a where "ev = Reply w r" "w < length (workers s)" "workers s ! w = AwaitCall i a"
        "s' = runWorker e w (onReply e w i a r s)"
    | (timer) w i a ms where "ev = Timer w" "w < length (workers s)"
        "workers s ! w = AwaitDelay i a ms" "s' = runWorker e w (setWorker w (Inner i a False) s)"
proof (cases ev)
  case Abort
  show thesis
  proof (cases "aborted s")
    case True
    with assms Abort have "s' = s" by (simp add: step_def)
    with Abort True show thesis by (rule abort)
  next
    case False
    with assms Abort have "s' = s\<lparr>aborted := True, trace := trace s @ [SignalAborted]\<rparr>"
      by (simp add: step_def)
    with Abort False show thesis by (rule fire)
  qed
next
  case (Reply w r)
  with assms have w: "w < length (workers s)" by (simp add: step_def split: if_splits)
  with assms Reply obtain i a where st: "workers s ! w = AwaitCall i a"
    by (cases "workers s ! w") (simp_all add: step_def)
  with assms Reply w have "s' = runWorker e w (onReply e w i a r s)" by (simp add: step_def)
  with Reply w st show thesis by (rule reply)
next
  case (Timer w)
  with assms have w: "w < length (workers s)" by (simp add: step_def split: if_splits)
  with assms Timer obtain i a ms where st: "workers s ! w = AwaitDelay i a ms"
    by (cases "workers s ! w") (simp_all add: step_def)
  with assms Timer w have "s' = runWorker e w (setWorker w (Inner i a False) s)"
    by (simp add: step_def)
  with Timer w st show thesis by (rule timer)
qed

lemma step_inv:
  assumes "inv e s" and "handlerOk (env_handle e)" and "step e ev s = Some s'"
  shows "inv e s'"
  using assms(3)
proof (cases rule: step_cases)
  case abort
  with assms(1) show ?thesis by simp
next
  case fire
  with inv_abort[OF assms(1)] show ?thesis by simp
next
  case (reply w r i a)
  with inv_reply[OF assms(1) reply(2,3) assms(2)] show ?thesis by (simp add: runWorker_inv)
next
  case (timer w i a ms)
  with inv_timer[OF assms(1) timer(2,3)] show ?thesis by (simp add: runWorker_inv)
qed

lemma step_suspended:
  assumes "suspended s" and "step e ev s = Some s'"
  shows "suspended s'"
  using assms(2)
proof (cases rule: step_cases)
  case abort
  with assms(1) show ?thesis by simp
next
  case fire
  with assms(1) show ?thesis by (simp add: suspended_def)
next
  case (reply w r i a)
  from onReply_workers[of e w i a r s] obtain x
    where "workers (onReply e w i a r s) = (workers s)[w := x]" ..
  from suspended_resume[OF assms(1) reply(2) this] reply(4) show ?thesis by simp
next
  case (timer w i a ms)
  have "workers (setWorker w (Inner i a False) s) = (workers s)[w := Inner i a False]" by simp
  from suspended_resume[OF assms(1) timer(2) this] timer(4) show ?thesis by simp
qed

lemma run_inv:
  assumes "handlerOk (env_handle e)"
  shows "inv e s \<Longrightarrow> suspended s \<Longrightarrow> run e evs s = Some s' \<Longrightarrow> inv e s' \<and> suspended s'"
proof (induction evs arbitrary: s)
  case Nil
  then show ?case by simp
next
  case (Cons ev evs)
  from Cons.prems(3) obtain t where t: "step e ev s = Some t" and r: "run e evs t = Some s'"
    by (auto split: option.splits)
  from step_inv[OF Cons.prems(1) assms t] step_suspended[OF Cons.prems(2) t] Cons.IH[OF _ _ r]
  show ?case by simp
qed

lemma reachable_inv:
  assumes "handlerOk (env_handle e)" and "run e evs (spawn e b) = Some s"
  shows "inv e s" and "suspended s"
  using run_inv[OF assms(1) inv_spawn suspended_spawn assms(2)] by simp_all


subsection \<open>The two reply handlers\<close>

lemma scanParts_found:
  "(f \<longrightarrow> (\<exists>x \<in> set em. isImageEmission x)) \<Longrightarrow> scanParts ps (em, f) = (em', f', err) \<Longrightarrow>
     (f' \<longrightarrow> (\<exists>x \<in> set em'. isImageEmission x))"
proof (induction ps arbitrary: em f)
  case Nil
  then show ?case by simp
next
  case (Cons q ps)
  show ?case
  proof (cases q)
    case None
    with Cons.prems show ?thesis by simp
  next
    case (Some p)
    show ?thesis
    proof (cases "partEmission p")
      case None
      with Some Cons.prems Cons.IH[of f em] show ?thesis by simp
    next
      case (Some x)
      with \<open>q = Some p\<close> Cons.prems(2)
      have sc: "scanParts ps (em @ [x], f \<or> isImageEmission x) = (em', f', err)" by simp
      have "f \<or> isImageEmission x \<longrightarrow> (\<exists>y \<in> set (em @ [x]). isImageEmission y)"
        using Cons.prems(1) by auto
      from Cons.IH[OF this sc] show ?thesis .
    qed
  qed
qed

lemma scanOaParts_found:
  "(f \<longrightarrow> (\<exists>x \<in> set em. isImageEmission x)) \<Longrightarrow> scanOaParts ps (em, f) = (em', f', err) \<Longrightarrow>
     (f' \<longrightarrow> (\<exists>x \<in> set em'. isImageEmission x))"
proof (induction ps arbitrary: em f)
  case Nil
  then show ?case by simp
next
  case (Cons p ps)
  show ?case
  proof (cases "oaPartEmission p")
    case (Inl a)
    with Cons.prems show ?thesis by simp
  next
    case (Inr opt)
    show ?thesis
    proof (cases opt)
      case None
      with Inr Cons.prems Cons.IH[of f em] show ?thesis by simp
    next
      case (Some x)
      with Inr Cons.prems(2)
      have sc: "scanOaParts ps (em @ [x], f \<or> isImageEmission x) = (em', f', err)" by simp
      have "f \<or> isImageEmission x \<longrightarrow> (\<exists>y \<in> set (em @ [x]). isImageEmission y)"
        using Cons.prems(1) by auto
      from Cons.IH[OF this sc] show ?thesis .
    qed
  qed
qed

lemma afterParts_ok:
  assumes "f \<longrightarrow> (\<exists>x \<in> set em. isImageEmission x)" and "snd (afterParts (em, f, err)) = None"
  shows "\<exists>x \<in> set (fst (afterParts (em, f, err))). isImageEmission x"
  using assms by (cases err) (simp_all add: afterParts_def split: if_splits)

lemma handleGemini_returns:
  "handleGemini (GeminiReturns (c # cs)) =
     (if orElse (cand_finishReason c) (cand_finish_reason c) = js ''SAFETY'' then
        ([], Some (SafetyFilterError (js ''Content blocked by safety filters'')))
      else case cand_parts c of
             None \<Rightarrow> ([], Some (ImageProcessingError (js ''No content parts in response'')))
           | Some parts \<Rightarrow> afterParts (scanParts parts ([], False)))"
  by (simp add: handleGemini_def Let_def)

lemma handlerOk_handleGemini: "handlerOk handleGemini"
  unfolding handlerOk_def
proof (intro allI impI)
  fix r assume n: "snd (handleGemini r) = None"
  show "\<exists>em \<in> set (fst (handleGemini r)). isImageEmission em"
  proof (cases r)
    case (GeminiThrows f)
    with n show ?thesis by (simp add: handleGemini_def)
  next
    case (GeminiReturns cs)
    show ?thesis
    proof (cases cs)
      case Nil
      with GeminiReturns n show ?thesis by (simp add: handleGemini_def)
    next
      case (Cons c cs')
      show ?thesis
      proof (cases "cand_parts c")
        case None
        with n GeminiReturns Cons show ?thesis
          by (simp add: handleGemini_returns split: if_splits)
      next
        case (Some parts)
        obtain em f err where sc: "scanParts parts ([], False) = (em, f, err)"
          by (cases "scanParts parts ([], False)") auto
        with n GeminiReturns Cons Some
        have h: "handleGemini r = afterParts (em, f, err)"
          and n': "snd (afterParts (em, f, err)) = None"
          by (simp_all add: handleGemini_returns split: if_splits)
        have "f \<longrightarrow> (\<exists>x \<in> set em. isImageEmission x)"
          by (rule scanParts_found[OF _ sc]) simp
        from afterParts_ok[OF this n'] show ?thesis unfolding h .
      qed
    qed
  qed
qed

lemma handleContent_ok:
  assumes "snd (handleContent c) = None"
  shows "\<exists>em \<in> set (fst (handleContent c)). isImageEmission em"
proof (cases c)
  case None
  with assms show ?thesis by simp
next
  case (Some x)
  show ?thesis
  proof (cases x)
    case (ContentString str)
    show ?thesis
    proof (cases "str = []")
      case True
      with Some ContentString assms show ?thesis by simp
    next
      case False
      show ?thesis
      proof (cases "findDataUri str")
        case None
        with Some ContentString False assms show ?thesis
          by (simp add: afterParts_def)
      next
        case (Some uri)
        with \<open>c = Some x\<close> ContentString False show ?thesis
          by (simp add: afterParts_def isImageEmission_def)
      qed
    qed
  next
    case (ContentArray ps)
    obtain em f err where sc: "scanOaParts ps ([], False) = (em, f, err)"
      by (cases "scanOaParts ps ([], False)") auto
    with Some ContentArray assms
    have h: "handleContent c = afterParts (em, f, err)"
      and n': "snd (afterParts (em, f, err)) = None" by simp_all
    have "f \<longrightarrow> (\<exists>x \<in> set em. isImageEmission x)"
      by (rule scanOaParts_found[OF _ sc]) simp
    from afterParts_ok[OF this n'] show ?thesis unfolding h .
  qed
qed

lemma handlerOk_handleOpenAI: "handlerOk handleOpenAI"
  unfolding handlerOk_def
proof (intro allI impI)
  fix r assume n: "snd (handleOpenAI r) = None"
  show "\<exists>em \<in> set (fst (handleOpenAI r)). isImageEmission em"
  proof (cases r)
    case (OpenAIThrows f)
    with n show ?thesis by (simp add: handleOpenAI_def)
  next
    case (OpenAIReturns cs)
    show ?thesis
    proof (cases cs)
      case Nil
      with OpenAIReturns n show ?thesis by (simp add: handleOpenAI_def)
    next
      case (Cons c cs')
      with OpenAIReturns n have "snd (handleContent (ch_content c)) = None"
        and "handleOpenAI r = handleContent (ch_content c)"
        by (simp_all add: handleOpenAI_def split: if_splits)
      with handleContent_ok[of "ch_content c"] show ?thesis by simp
    qed
  qed
qed

lemma handlerOk_envs [simp]:
  "handlerOk (env_handle (geminiEnv d n cb))" "handlerOk (env_handle (openaiEnv d n cb))"
  by (simp_all add: geminiEnv_def openaiEnv_def handlerOk_handleGemini handlerOk_handleOpenAI)

subsection \<open>After the signal has fired\<close>

lemma micro_after_abort:
  assumes "aborted s"
  shows "trace (micro e w s) = trace s" "taskQueue (micro e w s) = taskQueue s"
    "completedCount (micro e w s) = completedCount s" "aborted (micro e w s)"
  using assms
  by (cases "workers s ! w"; simp add: micro_def reportOutcome_silent)+

lemma runWorker_after_abort:
  "aborted s \<Longrightarrow>
     trace (runWorker e w s) = trace s \<and> taskQueue (runWorker e w s) = taskQueue s \<and>
     completedCount (runWorker e w s) = completedCount s \<and> aborted (runWorker e w s)"
proof (induction e w s rule: runWorker.induct)
  case (1 e w s)
  show ?case
  proof (cases "w < length (workers s) \<and> running (workers s ! w)")
    case True
    then have "runWorker e w s = runWorker e w (micro e w s)" by (simp add: runWorker_go)
    with 1 True show ?thesis by (simp add: micro_after_abort)
  next
    case False
    then have "runWorker e w s = s" by (rule runWorker_stop)
    with 1 show ?thesis by simp
  qed
qed

lemma micro_mono: "aborted s \<Longrightarrow> aborted (micro e w s)"
  by (rule micro_after_abort)

text \<open>A worker that stops at an \<open>await\<close> has just seen the signal not aborted.\<close>

lemma micro_ends:
  assumes "w < length (workers s)" and "running (workers s ! w)"
    and "\<not> running (workers (micro e w s) ! w)"
  shows "workers (micro e w s) ! w = Finished \<or>
         (\<exists>i a. workers (micro e w s) ! w = AwaitCall i a \<and> \<not> aborted (micro e w s))"
  using assms
  by (cases "workers s ! w") (auto simp: micro_def running_def split: if_splits)

lemma runWorker_ends:
  "w < length (workers s) \<Longrightarrow> running (workers s ! w) \<Longrightarrow>
     workers (runWorker e w s) ! w = Finished \<or>
     (\<exists>i a. workers (runWorker e w s) ! w = AwaitCall i a \<and> \<not> aborted (runWorker e w s))"
proof (induction e w s rule: runWorker.induct)
  case (1 e w s)
  from "1.prems" have go: "runWorker e w s = runWorker e w (micro e w s)"
    by (simp add: runWorker_go)
  show ?case
  proof (cases "running (workers (micro e w s) ! w)")
    case True
    with "1.IH" "1.prems" show ?thesis unfolding go by simp
  next
    case False
    then have "runWorker e w (micro e w s) = micro e w s" by (simp add: runWorker_stop)
    with micro_ends[OF "1.prems" False] show ?thesis unfolding go by simp
  qed
qed

lemma onReply_ends:
  assumes "w < length (workers s)"
  shows "workers (runWorker e w (onReply e w i a r s)) ! w = Finished \<or>
         \<not> aborted (runWorker e w (onReply e w i a r s))"
proof (cases "running (workers (onReply e w i a r s) ! w)")
  case True
  from onReply_workers[of e w i a r s] assms have "w < length (workers (onReply e w i a r s))"
    by auto
  from runWorker_ends[OF this True] show ?thesis by auto
next
  case False
  then have st: "runWorker e w (onReply e w i a r s) = onReply e w i a r s"
    by (simp add: runWorker_stop)
  show ?thesis
  proof (cases "snd (env_handle e r)")
    case None
    with False assms show ?thesis by (simp add: onReply_def Let_def running_def)
  next
    case (Some err)
    with False assms show ?thesis unfolding st
      by (simp add: onReply_def Let_def catchBlock_cases running_def split: if_splits)
  qed
qed


lemma step_mono:
  assumes "step e ev s = Some s'" and "aborted s"
  shows "aborted s'"
  using assms(1)
proof (cases rule: step_cases)
  case (reply w r i a)
  have "aborted (onReply e w i a r s)"
    using assms(2)
    by (cases "snd (env_handle e r)") (simp_all add: onReply_def Let_def emits_aborted catchBlock_cases)
  with reply show ?thesis by (simp add: runWorker_after_abort)
next
  case (timer w i a ms)
  with assms(2) show ?thesis by (simp add: runWorker_after_abort)
qed (use assms(2) in simp_all)


subsection \<open>What a reachable state says about a slot\<close>

lemma step_length:
  assumes "step e ev s = Some s'"
  shows "length (workers s') = length (workers s)"
  using assms
proof (cases rule: step_cases)
  case (reply w r i a)
  with onReply_workers[of e w i a r s] show ?thesis by auto
qed simp_all

lemma run_length: "run e evs s = Some s' \<Longrightarrow> length (workers s') = length (workers s)"
proof (induction evs arbitrary: s)
  case Nil
  then show ?case by simp
next
  case (Cons ev evs)
  from Cons.prems obtain t where t: "step e ev s = Some t" and r: "run e evs t = Some s'"
    by (auto split: option.splits)
  from Cons.IH[OF r] step_length[OF t] show ?case by simp
qed

lemma spawn_length: "length (workers (spawn e b)) = min MAX_CONCURRENT_REQUESTS (env_batchSize e)"
  by (simp add: spawn_initial initialPool_def)


lemma suspended_state:
  assumes "suspended s" and "w < length (workers s)" and "held (workers s ! w) = Some i"
  shows "(\<exists>a. workers s ! w = AwaitCall i a) \<or> (\<exists>a ms. workers s ! w = AwaitDelay i a ms)"
proof -
  from assms(1,2) have "\<not> running (workers s ! w)" by (simp add: suspended_def)
  with assms(3) show ?thesis by (cases "workers s ! w") (simp_all add: running_def)
qed

lemma empty_slot:
  assumes "acts i tr = []"
  shows "successImages i tr = []" "errorImages i tr = []" "progressCalls i tr = []"
    "textCalls i tr = []"
  using projections_of_acts[of i tr, symmetric] assms by simp_all

lemma slot_ok:
  assumes "inv e s" and "suspended s"
  shows "slotOk (aborted s) (trace s) i"
proof (cases "isFree s i")
  case True
  with inv_parts(4)[OF assms(1)]
  have f: "if i < claimedCount e s then resolvedOk (aborted s) (trace s) i else acts i (trace s) = []"
    by (simp add: invFree_def)
  show ?thesis
  proof (cases "i < claimedCount e s")
    case True
    with f have "resolvedOk (aborted s) (trace s) i" by simp
    then show ?thesis unfolding resolvedOk_def slotOk_def by blast
  next
    case False
    with f have a: "acts i (trace s) = []" by simp
    from no_acts[OF a] empty_slot[OF a] show ?thesis by (simp add: slotOk_def)
  qed
next
  case False
  then obtain w where w: "w < length (workers s)" and h: "held (workers s ! w) = Some i"
    by (auto simp: isFree_def)
  from worker_ok[OF inv_parts(3)[OF assms(1)] w]
  have ok: "wsOk (aborted s) (trace s) (workers s ! w)" .
  from suspended_state[OF assms(2) w h] show ?thesis
  proof (elim disjE exE)
    fix a assume "workers s ! w = AwaitCall i a"
    with ok have a: "a \<le> MAX_RETRIES" and at: "attempts i (trace s) = attemptPlan i (Suc a)"
      and q: "quiet i (trace s)" and x: "\<not> exhausted i (trace s)" by simp_all
    from a have "prefix (attemptPlan i (Suc a)) (fullPlan i)"
      unfolding fullPlan_def by (intro attemptPlan_prefix) simp
    with at q x show ?thesis by (simp add: slotOk_def quiet_def)
  next
    fix a ms assume "workers s ! w = AwaitDelay i a ms"
    with ok have a: "1 \<le> a" "a \<le> MAX_RETRIES" and ms: "ms = 1000 * 2 ^ (a - 1)"
      and at: "attempts i (trace s) = attemptPlan i a @ [Delay i ms]"
      and q: "quiet i (trace s)" and x: "\<not> exhausted i (trace s)" by simp_all
    from a have "prefix (attemptPlan i a @ [Delay i (1000 * 2 ^ (a - 1))]) (fullPlan i)"
      unfolding fullPlan_def by (intro attemptPlan_delay_prefix) simp_all
    with at ms q x show ?thesis by (simp add: slotOk_def quiet_def)
  qed
qed

lemma finished_workers: "finished s \<Longrightarrow> w < length (workers s) \<Longrightarrow> workers s ! w = Finished"
  by (simp add: finished_def list_all_length)

lemma finished_free: "finished s \<Longrightarrow> isFree s i"
  by (simp add: isFree_def finished_workers)

lemma finished_heldCount: "finished s \<Longrightarrow> heldCount (workers s) = 0"
proof -
  assume "finished s"
  then have "\<forall>x \<in> set (workers s). x = Finished" by (simp add: finished_def list_all_iff)
  then show ?thesis unfolding heldCount_def by (induction "workers s") auto
qed

lemma finished_drained:
  assumes "inv e s" and "finished s" and "\<not> aborted s"
    and len: "length (workers s) = min MAX_CONCURRENT_REQUESTS (env_batchSize e)"
  shows "taskQueue s = []" and "claimedCount e s = env_batchSize e"
    and "completedCount s = env_batchSize e"
proof -
  show q: "taskQueue s = []"
  proof (cases "workers s")
    case Nil
    with len have "env_batchSize e = 0" by (simp add: MAX_CONCURRENT_REQUESTS_def)
    with inv_parts(1)[OF assms(1)] show ?thesis by (simp add: invQueue_def)
  next
    case (Cons x xs)
    with finished_workers[OF assms(2), of 0] have "Finished \<in> set (workers s)" by simp
    with inv_parts(7)[OF assms(1)] assms(3) show ?thesis by (simp add: invDrained_def)
  qed
  then show c: "claimedCount e s = env_batchSize e" by (simp add: claimedCount_def)
  from inv_parts(6)[OF assms(1)] assms(3) finished_heldCount[OF assms(2)] c
  show "completedCount s = env_batchSize e" by (simp add: invCount_def)
qed

lemma finished_outcomes:
  assumes "inv e s" and "finished s" and "\<not> aborted s"
    and len: "length (workers s) = min MAX_CONCURRENT_REQUESTS (env_batchSize e)"
  shows "progressValues (trace s) = map (\<lambda>c. (c, env_batchSize e)) [1..<Suc (env_batchSize e)]"
    and "i < env_batchSize e \<Longrightarrow> length (progressCalls i (trace s)) = 1"
    and "i < env_batchSize e \<Longrightarrow>
           (errorImages i (trace s) = [] \<and> successImages i (trace s) \<noteq> [] \<and>
            \<not> exhausted i (trace s)) \<or>
           (length (errorImages i (trace s)) = 1 \<and> attempts i (trace s) = fullPlan i)"
    and "env_batchSize e \<le> i \<Longrightarrow> acts i (trace s) = []"
proof -
  note d = finished_drained[OF assms]
  from inv_parts(5)[OF assms(1)] d(3)
  show "progressValues (trace s) = map (\<lambda>c. (c, env_batchSize e)) [1..<Suc (env_batchSize e)]"
    by (simp add: invProgress_def)
  from inv_parts(4)[OF assms(1)] finished_free[OF assms(2), of i]
  have f: "if i < claimedCount e s then resolvedOk (aborted s) (trace s) i else acts i (trace s) = []"
    by (simp add: invFree_def)
  { assume "i < env_batchSize e"
    with f d(2) assms(3) have r: "resolvedOk False (trace s) i" by simp
    from r show "length (progressCalls i (trace s)) = 1" by (simp add: resolvedOk_def)
    from r show "(errorImages i (trace s) = [] \<and> successImages i (trace s) \<noteq> [] \<and>
            \<not> exhausted i (trace s)) \<or>
           (length (errorImages i (trace s)) = 1 \<and> attempts i (trace s) = fullPlan i)"
      unfolding resolvedOk_def by (cases "errorImages i (trace s) = []") auto }
  { assume "env_batchSize e \<le> i"
    with f d(2) show "acts i (trace s) = []" by simp }
qed

lemma never_stuck:
  assumes "suspended s" and "\<not> finished s"
  shows "\<exists>ev s'. \<not> isAbort ev \<and> step e ev s = Some s'"
proof -
  from assms(2) obtain w where w: "w < length (workers s)" and nf: "workers s ! w \<noteq> Finished"
    by (auto simp: finished_def list_all_length)
  from assms(1) w have nr: "\<not> running (workers s ! w)" by (simp add: suspended_def)
  show ?thesis
  proof (cases "workers s ! w")
    case (AwaitCall i a)
    with w have "step e (Reply w undefined) s = Some (runWorker e w (onReply e w i a undefined s))"
      by (simp add: step_def)
    moreover have "\<not> isAbort (Reply w undefined)" by (simp add: isAbort_def)
    ultimately show ?thesis by blast
  next
    case (AwaitDelay i a ms)
    with w have "step e (Timer w) s = Some (runWorker e w (setWorker w (Inner i a False) s))"
      by (simp add: step_def)
    moreover have "\<not> isAbort (Timer w)" by (simp add: isAbort_def)
    ultimately show ?thesis by blast
  qed (use nf nr in \<open>simp_all add: running_def\<close>)
qed



subsection \<open>A bound on the length of a batch\<close>

lemma sum_list_map_update:
  "w < length xs \<Longrightarrow>
     sum_list (map f (xs[w := x])) + f (xs ! w) = sum_list (map f xs) + (f x :: nat)"
proof (induction xs arbitrary: w)
  case Nil
  then show ?case by simp
next
  case (Cons y ys)
  then show ?case by (cases w) simp_all
qed

lemma workLeft_setWorker:
  "w < length (workers s) \<Longrightarrow>
     workLeft (setWorker w x s) + remaining (workers s ! w) = workLeft s + remaining x"
  using sum_list_map_update[of w "workers s" remaining x] by (simp add: workLeft_def)









lemma remaining_replicate [simp]: "sum_list (map remaining (replicate n Outer)) = 0"
  by (induction n) (simp_all add: remaining_def)



lemma run_mono: "run e evs s = Some s' \<Longrightarrow> aborted s \<Longrightarrow> aborted s'"
proof (induction evs arbitrary: s)
  case Nil
  then show ?case by simp
next
  case (Cons ev evs)
  from Cons.prems(1) obtain t where t: "step e ev s = Some t" and r: "run e evs t = Some s'"
    by (auto split: option.splits)
  from Cons.IH[OF r step_mono[OF t Cons.prems(2)]] show ?case .
qed


subsection \<open>Facts for the claims about the pool\<close>

lemma fullPlan_explicit:
  "fullPlan i = [Call i 0, Delay i 1000, Call i 1, Delay i 2000, Call i 2, Delay i 4000, Call i 3]"
  by (simp add: fullPlan_def attemptPlan_def planStep_def MAX_RETRIES_def upt_rec
      numeral_2_eq_2 numeral_3_eq_3)

lemma content_callback_kinds:
  "isContentCallback a \<Longrightarrow>
     \<not> isProgressOf i a \<and> \<not> isErrorImageOf i a \<and> \<not> isAttemptStepOf i a \<and> \<not> isLastFailureOf i a"
  by (cases a) simp_all

lemma catchBlock_failure_kind:
  "workers (catchBlock e w j n err t) = workers (catchBlock e w j n err' t)"
  "aborted (catchBlock e w j n err t) = aborted (catchBlock e w j n err' t)"
  "attempts i (trace (catchBlock e w j n err t)) = attempts i (trace (catchBlock e w j n err' t))"
  by (simp_all add: catchBlock_cases)

lemma error_image_shape:
  assumes "invShape s" and "length (errorImages i (trace s)) = 1"
  shows "\<exists>u. errorImages i (trace s) =
           [OnImage i \<lparr> img_id = u, img_data = [], img_mimeType = [], img_status = Error \<rparr>]"
proof -
  from assms(2) obtain a where a: "errorImages i (trace s) = [a]"
    by (cases "errorImages i (trace s)") simp_all
  then have "a \<in> set (errorImages i (trace s))" by simp
  then have m: "a \<in> set (trace s)" and e: "isErrorImageOf i a" by (simp_all add: errorImages_def)
  from e obtain img where i: "a = OnImage i img" and st: "img_status img = Error"
    by (cases a) simp_all
  from assms(1) m have "errorImageShape a" by (simp add: invShape_def)
  with i st have "img_data img = []" "img_mimeType img = []" by simp_all
  with st have "img = \<lparr> img_id = img_id img, img_data = [], img_mimeType = [], img_status = Error \<rparr>"
    by (cases img) simp
  with a i show ?thesis by metis
qed



subsection \<open>Replies without image data\<close>











subsection \<open>A failed attempt is followed by the wait and the next call\<close>

lemma timer_step:
  assumes w: "w < length (workers s)" and x: "workers s ! w = AwaitDelay i n ms"
    and n: "n \<le> MAX_RETRIES" and na: "\<not> aborted s"
  shows "step e (Timer w) s =
           Some (setWorker w (AwaitCall i n) (note_action (Call i n) (setWorker w (Inner i n False) s)))"
proof -
  let ?t = "setWorker w (Inner i n False) s"
  let ?u = "setWorker w (AwaitCall i n) (note_action (Call i n) ?t)"
  have st: "step e (Timer w) s = Some (runWorker e w ?t)" using w x by (simp add: step_def)
  have m: "micro e w ?t = ?u" using w n na by (simp add: micro_def)
  have "runWorker e w ?t = runWorker e w (micro e w ?t)"
    by (rule runWorker_go) (use w in \<open>simp_all add: running_def\<close>)
  also have "\<dots> = ?u" unfolding m
    by (rule runWorker_stop) (use w in \<open>simp add: running_def\<close>)
  finally show ?thesis using st by simp
qed

lemma failed_attempt_step:
  assumes w: "w < length (workers s)" and x: "workers s ! w = AwaitCall i n"
    and f: "snd (env_handle e r) = Some err"
  shows "\<exists>s'. step e (Reply w r) s = Some s' \<and>
           (n < MAX_RETRIES \<and> \<not> aborted (emits e i (fst (env_handle e r)) s) \<longrightarrow>
              workers s' ! w = AwaitDelay i (Suc n) (1000 * 2 ^ n) \<and>
              attempts i (trace s') = attempts i (trace s) @ [Delay i (1000 * 2 ^ n)] \<and>
              (\<exists>s''. step e (Timer w) s' = Some s'' \<and> workers s'' ! w = AwaitCall i (Suc n) \<and>
                 attempts i (trace s'') = attempts i (trace s') @ [Call i (Suc n)])) \<and>
           (aborted (emits e i (fst (env_handle e r)) s) \<longrightarrow>
              workers s' ! w = Finished \<and> attempts i (trace s') = attempts i (trace s))"
proof -
  let ?s1 = "emits e i (fst (env_handle e r)) s"
  let ?t = "onReply e w i n r s"
  let ?s' = "runWorker e w ?t"
  have st: "step e (Reply w r) s = Some ?s'" using w x by (simp add: step_def)
  have t: "?t = catchBlock e w i n err ?s1" using f by (simp add: onReply_def Let_def)
  have retry: "workers ?s' ! w = AwaitDelay i (Suc n) (1000 * 2 ^ n) \<and>
              attempts i (trace ?s') = attempts i (trace s) @ [Delay i (1000 * 2 ^ n)] \<and>
              (\<exists>s''. step e (Timer w) ?s' = Some s'' \<and> workers s'' ! w = AwaitCall i (Suc n) \<and>
                 attempts i (trace s'') = attempts i (trace ?s') @ [Call i (Suc n)])"
    if n: "n < MAX_RETRIES" and na: "\<not> aborted ?s1"
  proof -
    let ?d = "setWorker w (AwaitDelay i (Suc n) (1000 * 2 ^ n))
          (note_action (Delay i (1000 * 2 ^ n))
            (note_action (LogError i (Suc w) (Suc n) (env_logged e err)) ?s1))"
    from n na have c: "?t = ?d" unfolding t by (simp add: catchBlock_cases)
    have "\<not> (w < length (workers ?t) \<and> running (workers ?t ! w))"
      unfolding c using w by (simp add: running_def)
    then have s': "?s' = ?d" unfolding c[symmetric] by (rule runWorker_stop)
    have wd: "w < length (workers ?d)" "workers ?d ! w = AwaitDelay i (Suc n) (1000 * 2 ^ n)"
      "\<not> aborted ?d" "Suc n \<le> MAX_RETRIES"
      using w na n by simp_all
    note ti = timer_step[OF wd(1,2,4,3), of e]
    have 1: "workers ?s' ! w = AwaitDelay i (Suc n) (1000 * 2 ^ n)" unfolding s' by (rule wd(2))
    have 2: "attempts i (trace ?s') = attempts i (trace s) @ [Delay i (1000 * 2 ^ n)]"
      unfolding s' by simp
    have 3: "\<exists>s''. step e (Timer w) ?s' = Some s'' \<and> workers s'' ! w = AwaitCall i (Suc n) \<and>
                 attempts i (trace s'') = attempts i (trace ?s') @ [Call i (Suc n)]"
      unfolding s' ti using w by simp
    from 1 2 3 show ?thesis by blast
  qed
  have stop: "workers ?s' ! w = Finished \<and> attempts i (trace ?s') = attempts i (trace s)"
    if ab: "aborted ?s1"
  proof -
    from ab have c: "?t = setWorker w (Inner i (Suc n) False) ?s1"
      unfolding t by (simp add: catchBlock_cases)
    then have at: "aborted ?t" "trace ?t = trace ?s1" using ab by simp_all
    from runWorker_after_abort[OF at(1), of e w]
    have "aborted ?s'" and tr: "trace ?s' = trace ?s1" using at(2) by simp_all
    with onReply_ends[OF w, of e i n r] have "workers ?s' ! w = Finished" by blast
    then show ?thesis unfolding tr by simp
  qed
  from st retry stop show ?thesis by blast
qed


subsection \<open>Sample runs\<close>

lemma js_nonempty_sym [simp]: "[] \<noteq> js (c # s)"
  by (simp add: js_def)

lemma sample_handled:
  "handleGemini (sampleReply [Some imagePart]) =
     ([EmitImage (dataUriOf (js ''image/png'') (js ''QUJD'')) (js ''image/png'')], None)"
  "handleGemini (sampleReply [Some textPart]) =
     ([EmitText (js ''no'')], Some (ImageProcessingError (js ''No image data in response'')))"
  by (simp_all add: sampleReply_def sampleCandidate_def imagePart_def textPart_def
      handleGemini_def Let_def partEmission_def orElse_def isImageEmission_def afterParts_def)

lemma safety_handled:
  "handleGemini safetyTextReply =
     ([], Some (SafetyFilterError (js ''Content blocked by safety filters'')))"
  by (simp add: safetyTextReply_def handleGemini_def Let_def orElse_def)

lemma sampleEnv_fields [simp]:
  "env_batchSize (sampleEnv k) = k" "env_handle (sampleEnv k) = handleGemini"
  "env_callbackAborts (sampleEnv k) tr = False" "env_logged (sampleEnv k) f = f"
  "env_uuid (sampleEnv k) = toString"
  by (simp_all add: sampleEnv_def geminiEnv_def sampleDeps_def)

lemmas pool_eval = step_def runWorker.simps micro_def running_def onReply_def
  catchBlock_def reportOutcome_def emit_def emitImage_def note_action_def setWorker_def
  sample_handled Let_def MAX_RETRIES_def MAX_CONCURRENT_REQUESTS_def finished_def
  isOnImage_def isCallback_def

lemma sample_spawn:
  "spawn (sampleEnv 2) False =
     \<lparr> taskQueue = [], completedCount = 0, aborted = False,
       workers = [AwaitCall 0 0, AwaitCall 1 0], trace = [Call 0 0, Call 1 0] \<rparr>"
  "spawn (sampleEnv 1) False =
     \<lparr> taskQueue = [], completedCount = 0, aborted = False,
       workers = [AwaitCall 0 0], trace = [Call 0 0] \<rparr>"
  by (simp_all add: spawn_def pool_eval upt_rec numeral_2_eq_2)


lemma sample_run_texts:
  "\<exists>s. run (sampleEnv 1)
         [Reply 0 (sampleReply [Some textPart]), Timer 0, Reply 0 (sampleReply [Some textPart]), Timer 0,
          Reply 0 (sampleReply [Some textPart]), Timer 0, Reply 0 (sampleReply [Some textPart])]
         (spawn (sampleEnv 1) False) = Some s \<and> finished s \<and> \<not> aborted s \<and>
       exhausted 0 (trace s) \<and> length (textCalls 0 (trace s)) = 4 \<and>
       errorImages 0 (trace s) \<noteq> [] \<and> length (errorImages 0 (trace s)) = 1"
  unfolding sample_spawn by (simp add: pool_eval)


section \<open>The claims about the pool\<close>




text \<open>
  Claim C2. In every state a batch can reach, the provider calls and the waits of a slot
  are an initial part of the plan: call, wait 1000 ms, call, wait 2000 ms, call, wait
  4000 ms, call; so there are at most four attempts, and the wait before retry \<open>n\<close> is
  \<open>1000 * 2 ^ (n - 1)\<close> ms. An error image is reported only after the whole plan. After
  the signal has fired there is no further call and no further wait. Whatever the failure
  of an attempt is, the worker that awaited the reply then waits \<open>1000 * 2 ^ n\<close> ms after
  attempt \<open>n < 3\<close> and, when the timer fires, starts attempt \<open>n + 1\<close>; if the signal is
  aborted when the attempt has failed, the worker returns with no wait and no further
  call. The \<open>catch\<close> block does the same for every kind of failure: the next control
  point, the signal and the calls and waits do not depend on the error.
\<close>

theorem retry_schedule:
  fixes d :: deps and k :: nat and cb :: "action list \<Rightarrow> bool"
  defines "e \<equiv> geminiEnv d k cb"
  assumes r: "run e evs (spawn e b) = Some s"
  shows "prefix (attempts i (trace s))
           [Call i 0, Delay i 1000, Call i 1, Delay i 2000, Call i 2, Delay i 4000, Call i 3] \<and>
         (errorImages i (trace s) \<noteq> [] \<longrightarrow>
            attempts i (trace s) =
              [Call i 0, Delay i 1000, Call i 1, Delay i 2000, Call i 2, Delay i 4000, Call i 3]) \<and>
         (\<forall>a \<in> set (afterAbort (trace s)). \<not> isAttemptStepOf i a) \<and>
         (\<forall>w j n rp err.
            w < length (workers s) \<and> workers s ! w = AwaitCall j n \<and>
            snd (handleGemini rp) = Some err \<longrightarrow>
            (\<exists>s'. step e (Reply w rp) s = Some s' \<and>
               (n < MAX_RETRIES \<and> \<not> aborted (emits e j (fst (handleGemini rp)) s) \<longrightarrow>
                  workers s' ! w = AwaitDelay j (Suc n) (1000 * 2 ^ n) \<and>
                  attempts j (trace s') = attempts j (trace s) @ [Delay j (1000 * 2 ^ n)] \<and>
                  (\<exists>s''. step e (Timer w) s' = Some s'' \<and>
                     workers s'' ! w = AwaitCall j (Suc n) \<and>
                     attempts j (trace s'') = attempts j (trace s') @ [Call j (Suc n)])) \<and>
               (aborted (emits e j (fst (handleGemini rp)) s) \<longrightarrow>
                  workers s' ! w = Finished \<and> attempts j (trace s') = attempts j (trace s)))) \<and>
         (\<forall>w j n t err err'.
            workers (catchBlock e w j n err t) = workers (catchBlock e w j n err' t) \<and>
            aborted (catchBlock e w j n err t) = aborted (catchBlock e w j n err' t) \<and>
            attempts i (trace (catchBlock e w j n err t)) =
              attempts i (trace (catchBlock e w j n err' t)))"
proof -
  have h: "handlerOk (env_handle e)" by (simp add: e_def)
  have eh: "env_handle e = handleGemini" by (simp add: e_def geminiEnv_def)
  note iv = reachable_inv[OF h r]
  from slot_ok[OF iv, of i]
  have "prefix (attempts i (trace s)) (fullPlan i)"
    and "errorImages i (trace s) \<noteq> [] \<longrightarrow> attempts i (trace s) = fullPlan i"
    by (simp_all add: slotOk_def)
  moreover from inv_parts(8)[OF iv(1)]
  have "\<forall>a \<in> set (afterAbort (trace s)). \<not> isAttemptStepOf i a"
    using content_callback_kinds by (auto simp: invAbort_def)
  moreover have "\<exists>s'. step e (Reply w rp) s = Some s' \<and>
               (n < MAX_RETRIES \<and> \<not> aborted (emits e j (fst (handleGemini rp)) s) \<longrightarrow>
                  workers s' ! w = AwaitDelay j (Suc n) (1000 * 2 ^ n) \<and>
                  attempts j (trace s') = attempts j (trace s) @ [Delay j (1000 * 2 ^ n)] \<and>
                  (\<exists>s''. step e (Timer w) s' = Some s'' \<and>
                     workers s'' ! w = AwaitCall j (Suc n) \<and>
                     attempts j (trace s'') = attempts j (trace s') @ [Call j (Suc n)])) \<and>
               (aborted (emits e j (fst (handleGemini rp)) s) \<longrightarrow>
                  workers s' ! w = Finished \<and> attempts j (trace s') = attempts j (trace s))"
    if "w < length (workers s)" and "workers s ! w = AwaitCall j n"
      and "snd (handleGemini rp) = Some err" for w j n rp err
    using failed_attempt_step[of w s j n e rp err] that unfolding eh by blast
  moreover have "\<forall>w j n t err err'.
            workers (catchBlock e w j n err t) = workers (catchBlock e w j n err' t) \<and>
            aborted (catchBlock e w j n err t) = aborted (catchBlock e w j n err' t) \<and>
            attempts i (trace (catchBlock e w j n err t)) =
              attempts i (trace (catchBlock e w j n err' t))"
    by (intro allI conjI) (rule catchBlock_failure_kind)+
  ultimately show ?thesis unfolding fullPlan_explicit by blast
qed

theorem retry_schedule_witness:
  "(\<exists>s. run (sampleEnv 1)
          [Reply 0 (sampleReply [Some textPart]), Timer 0, Reply 0 (sampleReply [Some textPart]),
           Timer 0, Reply 0 (sampleReply [Some textPart]), Timer 0,
           Reply 0 (sampleReply [Some textPart])]
          (spawn (sampleEnv 1) False) = Some s \<and> errorImages 0 (trace s) \<noteq> [] \<and>
        attempts 0 (trace s) =
          [Call 0 0, Delay 0 1000, Call 0 1, Delay 0 2000, Call 0 2, Delay 0 4000, Call 0 3]) \<and>
   (\<exists>s' s''. step (sampleEnv 1) (Reply 0 safetyTextReply) (spawn (sampleEnv 1) False) = Some s' \<and>
        workers s' ! 0 = AwaitDelay 0 1 1000 \<and>
        step (sampleEnv 1) (Timer 0) s' = Some s'' \<and> workers s'' ! 0 = AwaitCall 0 1)"
proof -
  from sample_run_texts obtain s
    where s: "run (sampleEnv 1)
          [Reply 0 (sampleReply [Some textPart]), Timer 0, Reply 0 (sampleReply [Some textPart]),
           Timer 0, Reply 0 (sampleReply [Some textPart]), Timer 0,
           Reply 0 (sampleReply [Some textPart])]
          (spawn (sampleEnv 1) False) = Some s"
      and e: "errorImages 0 (trace s) \<noteq> []" by blast
  from retry_schedule[OF s[unfolded sampleEnv_def], of 0] e s
  have 1: "\<exists>s. run (sampleEnv 1)
          [Reply 0 (sampleReply [Some textPart]), Timer 0, Reply 0 (sampleReply [Some textPart]),
           Timer 0, Reply 0 (sampleReply [Some textPart]), Timer 0,
           Reply 0 (sampleReply [Some textPart])]
          (spawn (sampleEnv 1) False) = Some s \<and> errorImages 0 (trace s) \<noteq> [] \<and>
        attempts 0 (trace s) =
          [Call 0 0, Delay 0 1000, Call 0 1, Delay 0 2000, Call 0 2, Delay 0 4000, Call 0 3]"
    by blast
  let ?e = "geminiEnv sampleDeps 1 (\<lambda>tr. False)"
  let ?s = "spawn ?e False"
  have sp: "?s = \<lparr> taskQueue = [], completedCount = 0, aborted = False,
                   workers = [AwaitCall 0 0], trace = [Call 0 0] \<rparr>"
    using sample_spawn(2) by (simp add: sampleEnv_def)
  have r0: "run ?e [] ?s = Some ?s" by simp
  have w: "0 < length (workers ?s)" unfolding sp by simp
  have x: "workers ?s ! 0 = AwaitCall 0 0" unfolding sp by simp
  have f: "snd (handleGemini safetyTextReply) =
             Some (SafetyFilterError (js ''Content blocked by safety filters''))"
    by (simp add: safety_handled)
  have na: "\<not> aborted (emits ?e 0 (fst (handleGemini safetyTextReply)) ?s)"
    unfolding sp by (simp add: safety_handled)
  from retry_schedule[OF r0, of 0] w x f
  have "\<exists>s'. step ?e (Reply 0 safetyTextReply) ?s = Some s' \<and>
               (0 < MAX_RETRIES \<and> \<not> aborted (emits ?e 0 (fst (handleGemini safetyTextReply)) ?s) \<longrightarrow>
                  workers s' ! 0 = AwaitDelay 0 (Suc 0) (1000 * 2 ^ 0) \<and>
                  (\<exists>s''. step ?e (Timer 0) s' = Some s'' \<and>
                     workers s'' ! 0 = AwaitCall 0 (Suc 0)))"
    by blast
  with na have "\<exists>s' s''. step ?e (Reply 0 safetyTextReply) ?s = Some s' \<and>
        workers s' ! 0 = AwaitDelay 0 1 1000 \<and>
        step ?e (Timer 0) s' = Some s'' \<and> workers s'' ! 0 = AwaitCall 0 1"
    by (auto simp add: MAX_RETRIES_def)
  with 1 show ?thesis unfolding sampleEnv_def by blast
qed

text \<open>
  Claim C3. In a batch that is not cancelled, a slot whose fourth attempt has failed has
  exactly one error image, with empty \<open>data\<close> and empty \<open>mimeType\<close>, exactly one call of
  \<open>onProgress\<close>, and all four attempts behind it. The batch goes on:
  if it has ended, every slot has been counted, and if it has not, a reply or a timer
  of some worker is still awaited.
\<close>

theorem exhausted_slot_reported_once:
  fixes d :: deps and k :: nat and cb :: "action list \<Rightarrow> bool"
  defines "e \<equiv> geminiEnv d k cb"
  assumes r: "run e evs (spawn e False) = Some s" and na: "\<not> aborted s"
    and x: "exhausted i (trace s)"
  shows "(\<exists>u. errorImages i (trace s) =
            [OnImage i \<lparr> img_id = u, img_data = [], img_mimeType = [], img_status = Error \<rparr>]) \<and>
         length (progressCalls i (trace s)) = 1 \<and>
         attempts i (trace s) =
           [Call i 0, Delay i 1000, Call i 1, Delay i 2000, Call i 2, Delay i 4000, Call i 3] \<and>
         (finished s \<longrightarrow> progressValues (trace s) = map (\<lambda>c. (c, k)) [1..<Suc k]) \<and>
         (\<not> finished s \<longrightarrow> (\<exists>ev s'. \<not> isAbort ev \<and> step e ev s = Some s'))"
proof -
  have h: "handlerOk (env_handle e)" by (simp add: e_def)
  have k: "env_batchSize e = k" by (simp add: e_def geminiEnv_def)
  note iv = reachable_inv[OF h r]
  have len: "length (workers s) = min MAX_CONCURRENT_REQUESTS (env_batchSize e)"
    using run_length[OF r] by (simp add: spawn_length)
  from slot_ok[OF iv, of i] na x
  have one: "length (errorImages i (trace s)) = 1" and p: "length (progressCalls i (trace s)) = 1"
    and at: "attempts i (trace s) = fullPlan i"
    by (auto simp add: slotOk_def)
  note error_image_shape[OF inv_parts(9)[OF iv(1)] one]
  moreover have "progressValues (trace s) = map (\<lambda>c. (c, k)) [1..<Suc k]" if f: "finished s"
    using finished_outcomes(1)[OF iv(1) f na len] by (simp add: k)
  moreover have "\<exists>ev s'. \<not> isAbort ev \<and> step e ev s = Some s'" if "\<not> finished s"
    using never_stuck[OF iv(2) that] .
  ultimately show ?thesis using p at unfolding fullPlan_explicit by blast
qed

theorem exhausted_slot_reported_once_witness:
  "\<exists>s. run (sampleEnv 1)
          [Reply 0 (sampleReply [Some textPart]), Timer 0, Reply 0 (sampleReply [Some textPart]), Timer 0,
           Reply 0 (sampleReply [Some textPart]), Timer 0, Reply 0 (sampleReply [Some textPart])]
          (spawn (sampleEnv 1) False) = Some s \<and> \<not> aborted s \<and> exhausted 0 (trace s) \<and>
        finished s \<and>
        (\<exists>u. errorImages 0 (trace s) =
            [OnImage 0 \<lparr> img_id = u, img_data = [], img_mimeType = [], img_status = Error \<rparr>]) \<and>
        length (progressCalls 0 (trace s)) = 1 \<and>
        progressValues (trace s) = map (\<lambda>c. (c, 1)) [1..<Suc 1]"
proof -
  from sample_run_texts obtain s
    where s: "run (sampleEnv 1)
          [Reply 0 (sampleReply [Some textPart]), Timer 0, Reply 0 (sampleReply [Some textPart]), Timer 0,
           Reply 0 (sampleReply [Some textPart]), Timer 0, Reply 0 (sampleReply [Some textPart])]
          (spawn (sampleEnv 1) False) = Some s"
      and f: "finished s" and na: "\<not> aborted s" and x: "exhausted 0 (trace s)" by blast
  from exhausted_slot_reported_once[OF s[unfolded sampleEnv_def] na x] f s na x
  show ?thesis by blast
qed








end
